theory Spec2Isabelle
  imports Main "HOL-Library.Multiset" "HOL-Library.Word" "HOL-Library.Sublist"
begin

section \<open>Time\<close>

text \<open>
  A \<^verbatim>\<open>time.Time\<close> is modelled as an instant on an unbounded integer axis of
  nanoseconds, a \<^verbatim>\<open>time.Duration\<close> as the signed 64-bit integer it is in Go.
  The constants of the source are \<^verbatim>\<open>schedulerTimeout = 100 * time.Millisecond\<close> and
  \<^verbatim>\<open>workerTimeout = 5 * time.Second\<close>.
\<close>

type_synonym Time = int
type_synonym Duration = "64 word"

definition Millisecond :: Duration where
  "Millisecond = 1000000"

definition Second :: Duration where
  "Second = 1000000000"

definition schedulerTimeout :: Duration where
  "schedulerTimeout = 100 * Millisecond"

definition workerTimeout :: Duration where
  "workerTimeout = 5 * Second"

definition zeroTime :: Time where
  "zeroTime = 0"

definition Before :: "Time \<Rightarrow> Time \<Rightarrow> bool" where
  "Before t u = (t < u)"

definition After :: "Time \<Rightarrow> Time \<Rightarrow> bool" where
  "After t u = (u < t)"

definition Add :: "Time \<Rightarrow> Duration \<Rightarrow> Time" where
  "Add t d = t + sint d"

text \<open>\<^verbatim>\<open>Time.Sub\<close> saturates at the largest and the smallest duration.\<close>

definition Sub :: "Time \<Rightarrow> Time \<Rightarrow> Duration" where
  "Sub t u =
     (if t - u > 2 ^ 63 - 1 then word_of_int (2 ^ 63 - 1)
      else if t - u < - (2 ^ 63) then word_of_int (- (2 ^ 63))
      else word_of_int (t - u))"

section \<open>The priority queue\<close>

text \<open>
  \<^verbatim>\<open>pqItem\<close> with its three fields. The channel pointer \<^verbatim>\<open>*ManagedChannel\<close> is an
  opaque identity \<open>'c\<close>, compared with \<open>=\<close> as the source compares pointers. The queue
  is a slice of pointers to items; every item is created by \<^verbatim>\<open>Update\<close> and sits in
  exactly one slot, so the slice is modelled as a list of item values.
\<close>

record 'c pqItem =
  ch :: 'c
  nextReap :: Time
  index :: int

type_synonym 'c priorityQueue = "'c pqItem list"

definition Len :: "'c priorityQueue \<Rightarrow> nat" where
  "Len pq = length pq"

definition Less :: "'c priorityQueue \<Rightarrow> nat \<Rightarrow> nat \<Rightarrow> bool" where
  "Less pq i j = Before (nextReap (pq ! i)) (nextReap (pq ! j))"

text \<open>
  \<^verbatim>\<open>pq[i], pq[j] = pq[j], pq[i]; pq[i].index = i; pq[j].index = j\<close>, statement by
  statement. The callers in \<^verbatim>\<open>container/heap\<close> pass indices below the length.
\<close>

definition Swap :: "'c priorityQueue \<Rightarrow> nat \<Rightarrow> nat \<Rightarrow> 'c priorityQueue" where
  "Swap pq i j =
     (let pq1 = pq[i := pq ! j, j := pq ! i];
          pq2 = pq1[i := (pq1 ! i)\<lparr>index := int i\<rparr>];
          pq3 = pq2[j := (pq2 ! j)\<lparr>index := int j\<rparr>]
      in pq3)"

definition pq_Push :: "'c priorityQueue \<Rightarrow> 'c pqItem \<Rightarrow> 'c priorityQueue" where
  "pq_Push pq x = (let n = length pq; item = x\<lparr>index := int n\<rparr> in pq @ [item])"

text \<open>\<^verbatim>\<open>priorityQueue.Pop\<close> is reached through \<^verbatim>\<open>heap.Pop\<close> on a non-empty queue only.\<close>

definition pq_Pop :: "'c priorityQueue \<Rightarrow> 'c pqItem \<times> 'c priorityQueue" where
  "pq_Pop old =
     (let n = length old; item = (old ! (n - 1))\<lparr>index := - 1\<rparr>
      in (item, take (n - 1) old))"

definition Peek :: "'c priorityQueue \<Rightarrow> 'c pqItem option" where
  "Peek pq = (if length pq = 0 then None else Some (pq ! 0))"

section \<open>container/heap\<close>

text \<open>
  The functions of Go's standard package \<^verbatim>\<open>container/heap\<close> that the source calls,
  over the \<^verbatim>\<open>heap.Interface\<close> methods above. Indices are natural numbers: the
  parent \<^verbatim>\<open>(j - 1) / 2\<close> of Go's truncating division is \<open>0\<close> at \<open>j = 0\<close>, as
  \<open>(j - 1) div 2\<close> is on \<open>nat\<close>, and the test \<^verbatim>\<open>j1 < 0\<close> of \<^verbatim>\<open>down\<close> guards an
  overflow of \<^verbatim>\<open>2*i + 1\<close> that no slice in memory reaches.
\<close>

function up :: "'c priorityQueue \<Rightarrow> nat \<Rightarrow> 'c priorityQueue" where
  "up h j =
     (let i = (j - 1) div 2 in
      if i = j \<or> \<not> Less h j i then h
      else up (Swap h i j) i)"
  by pat_completeness auto
termination
  by (relation "measure (\<lambda>(h, j). j)") auto

function down_loop :: "'c priorityQueue \<Rightarrow> nat \<Rightarrow> nat \<Rightarrow> 'c priorityQueue \<times> nat" where
  "down_loop h i n =
     (let j1 = 2 * i + 1 in
      if n \<le> j1 then (h, i)
      else let j2 = j1 + 1;
               j = (if j2 < n \<and> Less h j2 j1 then j2 else j1)
           in if \<not> Less h j i then (h, i)
              else down_loop (Swap h i j) j n)"
  by pat_completeness auto
termination
  by (relation "measure (\<lambda>(h, i, n). n - i)") (auto simp: Let_def)

declare up.simps [simp del]
declare down_loop.simps [simp del]

text \<open>\<^verbatim>\<open>down\<close> returns whether the element moved: \<^verbatim>\<open>return i > i0\<close>.\<close>

definition down :: "'c priorityQueue \<Rightarrow> nat \<Rightarrow> nat \<Rightarrow> 'c priorityQueue \<times> bool" where
  "down h i0 n = (case down_loop h i0 n of (h', i) \<Rightarrow> (h', i0 < i))"

definition heap_Init :: "'c priorityQueue \<Rightarrow> 'c priorityQueue" where
  "heap_Init h =
     (let n = Len h in foldl (\<lambda>h i. fst (down h i n)) h (rev [0..<n div 2]))"

definition heap_Push :: "'c priorityQueue \<Rightarrow> 'c pqItem \<Rightarrow> 'c priorityQueue" where
  "heap_Push h x = (let h1 = pq_Push h x in up h1 (Len h1 - 1))"

text \<open>\<^verbatim>\<open>heap.Pop\<close> on an empty heap panics in \<^verbatim>\<open>Swap(0, -1)\<close>: \<open>None\<close>.\<close>

definition heap_Pop :: "'c priorityQueue \<Rightarrow> ('c pqItem \<times> 'c priorityQueue) option" where
  "heap_Pop h =
     (if Len h = 0 then None
      else let n = Len h - 1;
               h1 = Swap h 0 n;
               h2 = fst (down h1 0 n)
           in Some (pq_Pop h2))"

definition heap_Fix :: "'c priorityQueue \<Rightarrow> nat \<Rightarrow> 'c priorityQueue" where
  "heap_Fix h i =
     (case down h i (Len h) of (h1, moved) \<Rightarrow> if \<not> moved then up h1 i else h1)"

section \<open>The queue\<close>

text \<open>
  \<^verbatim>\<open>controlCh\<close> is a buffered channel of tokens: its state is its capacity and the
  number of tokens in it. A send proceeds when the buffer has room, a receive when it
  holds a token; \<open>None\<close> is the operation blocking.
\<close>

record chan =
  chan_cap :: nat
  chan_len :: nat

definition chan_send :: "chan \<Rightarrow> chan option" where
  "chan_send c = (if chan_len c < chan_cap c then Some (c\<lparr>chan_len := chan_len c + 1\<rparr>) else None)"

definition chan_recv :: "chan \<Rightarrow> chan option" where
  "chan_recv c = (if 0 < chan_len c then Some (c\<lparr>chan_len := chan_len c - 1\<rparr>) else None)"

text \<open>
  \<^verbatim>\<open>reapQueue\<close>: the heap, the token channel and the in-flight set
  \<^verbatim>\<open>map[*ManagedChannel]struct{}\<close>. The condition variable, the timer, the two
  mutexes and the unbuffered \<^verbatim>\<open>workCh\<close> hold no data; each critical section is one
  function application here.
\<close>

record 'c reapQueue =
  items :: "'c priorityQueue"
  controlCh :: chan
  curWork :: "'c set"

record 'c reapWorkItem =
  work_ch :: 'c
  work_msgs :: "string list"

definition newReapQueue :: "nat \<Rightarrow> 'c reapQueue" where
  "newReapQueue maxWorkerCount =
     \<lparr>items = heap_Init [],
      controlCh = \<lparr>chan_cap = maxWorkerCount, chan_len = 0\<rparr>,
      curWork = {}\<rparr>"

text \<open>The scan of \<^verbatim>\<open>Update\<close>: the first index whose item has the channel, or \<open>-1\<close>.\<close>

fun scan :: "'c priorityQueue \<Rightarrow> 'c \<Rightarrow> int \<Rightarrow> int" where
  "scan [] c i = - 1"
| "scan (v # vs) c i = (if ch v = c then i else scan vs c (i + 1))"

definition Update :: "'c reapQueue \<Rightarrow> 'c \<Rightarrow> Time \<Rightarrow> 'c reapQueue" where
  "Update q c t =
     (let idx = scan (items q) c 0 in
      if idx = - 1
      then q\<lparr>items := heap_Push (items q) \<lparr>ch = c, nextReap = t, index = 0\<rparr>\<rparr>
      else q\<lparr>items := heap_Fix ((items q)[nat idx := (items q ! nat idx)\<lparr>nextReap := t\<rparr>])
                                  (nat idx)\<rparr>)"

text \<open>
  One pass of \<^verbatim>\<open>WaitForNext\<close> from the label \<^verbatim>\<open>start\<close>, under the lock, with the
  reading \<open>now\<close> of the clock: wait for an insertion, sleep on the timer, or pop.
\<close>

datatype 'c wait_result =
    WaitInsertion
  | SleepFor Duration
  | Popped "'c pqItem" "'c reapQueue"
  | Panicked

definition WaitForNext_pass :: "'c reapQueue \<Rightarrow> Time \<Rightarrow> 'c wait_result" where
  "WaitForNext_pass q now =
     (case Peek (items q) of
        None \<Rightarrow> WaitInsertion
      | Some it \<Rightarrow>
          if After (nextReap it) now
          then (let waitTime = Sub (nextReap it) now in SleepFor (waitTime + 2 * Millisecond))
          else (case heap_Pop (items q) of
                  None \<Rightarrow> Panicked
                | Some (x, h) \<Rightarrow> Popped x (q\<lparr>items := h\<rparr>)))"

text \<open>
  The whole call. While the caller is suspended in \<^verbatim>\<open>cond.Wait\<close> the lock is free
  and other goroutines call \<^verbatim>\<open>Update\<close>; each round of the schedule gives the clock
  reading of one pass and the updates that arrive during the wait that follows it. The
  call returns the popped item, the reading at which it was popped and the queue; \<open>None\<close>
  is a caller still suspended when the schedule ends.
\<close>

fun apply_updates :: "'c reapQueue \<Rightarrow> ('c \<times> Time) list \<Rightarrow> 'c reapQueue" where
  "apply_updates q [] = q"
| "apply_updates q ((c, t) # us) = apply_updates (Update q c t) us"

fun WaitForNext_run ::
  "'c reapQueue \<Rightarrow> (Time \<times> ('c \<times> Time) list) list
     \<Rightarrow> ('c pqItem \<times> Time \<times> 'c reapQueue) option" where
  "WaitForNext_run q [] = None"
| "WaitForNext_run q ((now, us) # rounds) =
     (case WaitForNext_pass q now of
        Popped it q' \<Rightarrow> Some (it, now, q')
      | Panicked \<Rightarrow> None
      | _ \<Rightarrow> WaitForNext_run (apply_updates q us) rounds)"

definition WaitForNext ::
  "'c reapQueue \<Rightarrow> (Time \<times> ('c \<times> Time) list) list \<Rightarrow> ('c \<times> 'c reapQueue) option" where
  "WaitForNext q rounds =
     (case WaitForNext_run q rounds of
        None \<Rightarrow> None
      | Some (it, now, q') \<Rightarrow> Some (ch it, q'))"

section \<open>The bot: scheduling entry points\<close>

text \<open>
  The bot owns two queues, \<^verbatim>\<open>b.reaper\<close> and \<^verbatim>\<open>b.loadRetries\<close>. The field
  \<^verbatim>\<open>loadFailures\<close> of each \<^verbatim>\<open>ManagedChannel\<close> (declared outside this file, read and
  written here under the channel's mutex) is a store from channels to durations. A
  worker receives its queue as a pointer \<^verbatim>\<open>q\<close>; \<open>qid\<close> says which of the two it is.
\<close>

datatype qid = Reaper | LoadRetries

record 'c Bot =
  reaper :: "'c reapQueue"
  loadRetries :: "'c reapQueue"
  loadFailures :: "'c \<Rightarrow> Duration"

definition get_queue :: "'c Bot \<Rightarrow> qid \<Rightarrow> 'c reapQueue" where
  "get_queue b q = (case q of Reaper \<Rightarrow> reaper b | LoadRetries \<Rightarrow> loadRetries b)"

definition set_queue :: "'c Bot \<Rightarrow> qid \<Rightarrow> 'c reapQueue \<Rightarrow> 'c Bot" where
  "set_queue b q v = (case q of Reaper \<Rightarrow> b\<lparr>reaper := v\<rparr> | LoadRetries \<Rightarrow> b\<lparr>loadRetries := v\<rparr>)"

text \<open>\<open>reapTime\<close> is what \<^verbatim>\<open>c.GetNextDeletionTime()\<close> returns.\<close>

definition QueueReap :: "'c Bot \<Rightarrow> 'c \<Rightarrow> Time \<Rightarrow> 'c Bot" where
  "QueueReap b c reapTime = b\<lparr>reaper := Update (reaper b) c reapTime\<rparr>"

definition CancelReap :: "'c Bot \<Rightarrow> 'c \<Rightarrow> 'c Bot" where
  "CancelReap b c = b\<lparr>reaper := Update (reaper b) c zeroTime\<rparr>"

text \<open>
  \<open>r\<close> is the draw \<^verbatim>\<open>int64(mrand.Intn(int(5*time.Second)))\<close>, made only when
  \<open>didFail\<close> holds, and \<open>now\<close> the reading \<^verbatim>\<open>time.Now()\<close>. The arithmetic is that of
  \<^verbatim>\<open>int64\<close>: it wraps.
\<close>

definition QueueLoadBacklog :: "'c Bot \<Rightarrow> 'c \<Rightarrow> bool \<Rightarrow> Duration \<Rightarrow> Time \<Rightarrow> 'c Bot" where
  "QueueLoadBacklog b c didFail r now =
     (let loadDelay = loadFailures b c;
          b1 = (if didFail then b\<lparr>loadFailures := (loadFailures b)(c := loadDelay * 2 + r)\<rparr>
                else b);
          loadDelay = (if didFail then loadFailures b1 c else loadDelay)
      in b1\<lparr>loadRetries := Update (loadRetries b1) c (Add now loadDelay)\<rparr>)"

section \<open>The dispatch loop\<close>

text \<open>
  The body of the loop of \<^verbatim>\<open>reapScheduler\<close> once \<^verbatim>\<open>WaitForNext\<close> has returned
  \<open>c\<close>: the new queue and the work item passed to \<^verbatim>\<open>sendWorkItem\<close>, if any.
\<close>

definition reapScheduler_body ::
  "'c reapQueue \<Rightarrow> 'c \<Rightarrow> 'c reapQueue \<times> 'c reapWorkItem option" where
  "reapScheduler_body q c =
     (let channelAlreadyBeingProcessed = (c \<in> curWork q);
          q1 = (if \<not> channelAlreadyBeingProcessed then q\<lparr>curWork := insert c (curWork q)\<rparr>
                else q)
      in if channelAlreadyBeingProcessed then (q1, None)
         else (q1, Some \<lparr>work_ch = c, work_msgs = []\<rparr>))"

text \<open>
  The in-flight set over time: the dispatch loop pops a channel, or a worker runs
  \<^verbatim>\<open>delete(q.curWork, ch)\<close>. Both happen under \<^verbatim>\<open>curMu\<close>, so they interleave as whole
  steps. The run collects the work items handed to \<^verbatim>\<open>sendWorkItem\<close>, oldest first.
\<close>

datatype 'c flight_event = SchedulerPopped 'c | WorkerDeleted 'c

fun flight_run ::
  "'c reapQueue \<Rightarrow> 'c flight_event list \<Rightarrow> 'c reapQueue \<times> 'c reapWorkItem list" where
  "flight_run q [] = (q, [])"
| "flight_run q (SchedulerPopped c # evs) =
     (case reapScheduler_body q c of
        (q1, None) \<Rightarrow> flight_run q1 evs
      | (q1, Some work) \<Rightarrow> (case flight_run q1 evs of (q2, sent) \<Rightarrow> (q2, work # sent)))"
| "flight_run q (WorkerDeleted c # evs) = flight_run (q\<lparr>curWork := curWork q - {c}\<rparr>) evs"

section \<open>The workers\<close>

text \<open>\<^verbatim>\<open>strings.Contains\<close>, and an \<^verbatim>\<open>error\<close> as \<open>None\<close> for \<^verbatim>\<open>nil\<close> or its text.\<close>

fun Contains :: "string \<Rightarrow> string \<Rightarrow> bool" where
  "Contains [] substr = (substr = [])"
| "Contains (x # s) substr = (prefix substr (x # s) \<or> Contains s substr)"

definition isRetryableLoadError :: "string option \<Rightarrow> bool" where
  "isRetryableLoadError err =
     (case err of
        None \<Rightarrow> False
      | Some e \<Rightarrow> if Contains e ''rate limit unmarshal error'' then True else False)"

text \<open>
  What the methods of \<^verbatim>\<open>ManagedChannel\<close> and of the bot that live outside this file
  return while one work item is handled: inputs of the model.
\<close>

record ext =
  IsDisabled :: bool
  LoadBacklog :: "string option"
  collect_shouldQueueBacklog :: bool
  collect_isDisabled :: bool
  Reap_count :: int
  Reap_err :: "string option"
  handleCriticalPermissionsErrors :: bool
  GetNextDeletionTime :: Time
  Intn :: Duration
  Now :: Time

text \<open>
  What a blocked worker sees next: an item on \<^verbatim>\<open>workCh\<close>, or \<^verbatim>\<open>workerTimeout\<close>
  passing with no item for it.
\<close>

datatype 'c worker_event = IdleTimeout | WorkCh "'c reapWorkItem" ext

datatype worker_status = Running | Exited | BlockedInDefer

text \<open>
  One turn of the loop of \<^verbatim>\<open>loadWorker\<close>. Its timer is created by
  \<^verbatim>\<open>time.NewTimer(0)\<close>; with \<open>mayTimeout\<close> it is reset to \<^verbatim>\<open>workerTimeout\<close> before
  each \<^verbatim>\<open>select\<close>, without it the timer is left as created, so that \<^verbatim>\<open>timer.C\<close> is
  ready in both cases once the timeout has passed and the \<^verbatim>\<open>select\<close> returns. The
  deferred function runs on return and receives a token when \<open>mayTimeout\<close> holds.
\<close>

definition loadWorker_turn ::
  "'c Bot \<Rightarrow> qid \<Rightarrow> bool \<Rightarrow> 'c worker_event \<Rightarrow> 'c Bot \<times> worker_status" where
  "loadWorker_turn b q mayTimeout ev =
     (case ev of
        IdleTimeout \<Rightarrow>
          if mayTimeout
          then (case chan_recv (controlCh (get_queue b q)) of
                  None \<Rightarrow> (b, BlockedInDefer)
                | Some tokens \<Rightarrow> (set_queue b q ((get_queue b q)\<lparr>controlCh := tokens\<rparr>), Exited))
          else (b, Exited)
      | WorkCh work x \<Rightarrow>
          let c = work_ch work in
          if IsDisabled x then (b, Running)
          else let err = LoadBacklog x;
                   b1 = set_queue b q ((get_queue b q)\<lparr>curWork := curWork (get_queue b q) - {c}\<rparr>);
                   b2 = (if isRetryableLoadError err
                         then QueueLoadBacklog b1 c True (Intn x) (Now x) else b1)
               in (b2, Running))"

text \<open>
  One turn of the loop of \<^verbatim>\<open>reapWorker\<close>, \<^verbatim>\<open>for work := range q.workCh\<close>: the loop
  has no timer and does not read \<open>mayTimeout\<close>, so time passing leaves it blocked.
\<close>

definition reapWorker_turn ::
  "'c Bot \<Rightarrow> qid \<Rightarrow> bool \<Rightarrow> 'c worker_event \<Rightarrow> 'c Bot \<times> worker_status" where
  "reapWorker_turn b q mayTimeout ev =
     (case ev of
        IdleTimeout \<Rightarrow> (b, Running)
      | WorkCh work x \<Rightarrow>
          let c = work_ch work;
              shouldQueueBacklog = collect_shouldQueueBacklog x;
              isDisabled = collect_isDisabled x
          in if isDisabled then (b, Running)
             else let err = Reap_err x; count = Reap_count x in
               if handleCriticalPermissionsErrors x then (b, Running)
               else let shouldQueueBacklog = (if err \<noteq> None then True else shouldQueueBacklog);
                        b1 = set_queue b q
                               ((get_queue b q)\<lparr>curWork := curWork (get_queue b q) - {c}\<rparr>);
                        b2 = QueueReap b1 c (GetNextDeletionTime x);
                        b3 = (if shouldQueueBacklog
                              then QueueLoadBacklog b2 c True (Intn x) (Now x) else b2)
                    in (b3, Running))"

text \<open>A worker goroutine: its turns, until it returns.\<close>

fun worker_loop ::
  "('c Bot \<Rightarrow> qid \<Rightarrow> bool \<Rightarrow> 'c worker_event \<Rightarrow> 'c Bot \<times> worker_status)
     \<Rightarrow> 'c Bot \<Rightarrow> qid \<Rightarrow> bool \<Rightarrow> 'c worker_event list \<Rightarrow> 'c Bot \<times> worker_status" where
  "worker_loop turn b q mayTimeout [] = (b, Running)"
| "worker_loop turn b q mayTimeout (ev # evs) =
     (case turn b q mayTimeout ev of
        (b1, Running) \<Rightarrow> worker_loop turn b1 q mayTimeout evs
      | (b1, st) \<Rightarrow> (b1, st))"

definition loadWorker ::
  "'c Bot \<Rightarrow> qid \<Rightarrow> bool \<Rightarrow> 'c worker_event list \<Rightarrow> 'c Bot \<times> worker_status" where
  "loadWorker = worker_loop loadWorker_turn"

definition reapWorker ::
  "'c Bot \<Rightarrow> qid \<Rightarrow> bool \<Rightarrow> 'c worker_event list \<Rightarrow> 'c Bot \<times> worker_status" where
  "reapWorker = worker_loop reapWorker_turn"

section \<open>The worker pool\<close>

text \<open>
  The goroutines of one queue: the bot and, for each live worker, the \<open>mayTimeout\<close> it
  was started with. A worker is started in two places, both of the shape
  \<^verbatim>\<open>q.controlCh <- workerToken{}; go workerFunc(q, mayTimeout)\<close>. The send proceeds
  when the buffer of \<^verbatim>\<open>controlCh\<close> has room; \<open>None\<close> is the send not proceeding, and
  then no worker starts. (With capacity \<open>0\<close> a send needs a receiver that is ready,
  and the only receivers are workers that return, of which there are none.) The
  capacity is a natural number: \<^verbatim>\<open>make\<close> panics on a negative one.
\<close>

record 'c pool =
  pool_bot :: "'c Bot"
  pool_workers :: "bool list"

definition start_worker :: "'c pool \<Rightarrow> qid \<Rightarrow> bool \<Rightarrow> 'c pool option" where
  "start_worker s q mayTimeout =
     (case chan_send (controlCh (get_queue (pool_bot s) q)) of
        None \<Rightarrow> None
      | Some tokens \<Rightarrow>
          Some (s\<lparr>pool_bot := set_queue (pool_bot s) q
                                 ((get_queue (pool_bot s) q)\<lparr>controlCh := tokens\<rparr>),
                  pool_workers := pool_workers s @ [mayTimeout]\<rparr>))"

text \<open>The head of \<^verbatim>\<open>reapScheduler\<close>, before its loop: the floor worker.\<close>

definition reapScheduler_start :: "'c pool \<Rightarrow> qid \<Rightarrow> 'c pool option" where
  "reapScheduler_start s q = start_worker s q False"

text \<open>
  \<^verbatim>\<open>sendWorkItem\<close>. One pass of its \<^verbatim>\<open>select\<close> ends in one of three ways: a
  worker takes the item from \<^verbatim>\<open>workCh\<close> before the timer fires; the timer fires and
  \<^verbatim>\<open>controlCh\<close> accepts a token, so that a worker is started with \<open>mayTimeout = True\<close>
  and the loop goes on; or the timer fires and a worker takes the item. A pass returns
  the pool and whether the function has returned. With the channel full the second way
  is not open: the pass changes nothing and the caller is still in its \<^verbatim>\<open>select\<close>.
\<close>

datatype select_outcome = WorkChSent | TimerC_Token | TimerC_WorkChSent

definition sendWorkItem_pass :: "'c pool \<Rightarrow> qid \<Rightarrow> select_outcome \<Rightarrow> 'c pool \<times> bool" where
  "sendWorkItem_pass s q outcome =
     (case outcome of
        WorkChSent \<Rightarrow> (s, True)
      | TimerC_Token \<Rightarrow>
          (case start_worker s q True of None \<Rightarrow> (s, False) | Some s1 \<Rightarrow> (s1, False))
      | TimerC_WorkChSent \<Rightarrow> (s, True))"

text \<open>
  The whole call, with the state of the timer that \<^verbatim>\<open>reapScheduler\<close> passes in: running,
  fired with its value still in \<^verbatim>\<open>timer.C\<close>, or fired and drained. The head of the loop
  is \<^verbatim>\<open>if !timer.Stop() { <-timer.C }\<close>: on a running timer \<^verbatim>\<open>Stop\<close> succeeds, on a
  fired one the receive takes the waiting value, and on a drained one \<^verbatim>\<open>Stop\<close> returns
  false and the receive never proceeds. Then \<^verbatim>\<open>timer.Reset(schedulerTimeout)\<close> sets the
  timer running. Both branches under \<^verbatim>\<open>case <-timer.C\<close> leave the timer drained: after
  a worker was started the \<^verbatim>\<open>continue\<close> reaches the head of the loop with a drained
  timer, and after \<^verbatim>\<open>return\<close> the next call starts with one. The result is the pool and
  where the caller is: returned (with the state in which it leaves the timer), still in
  a \<^verbatim>\<open>select\<close>, or stuck in the receive at the head of the loop.
\<close>

datatype timer_state = TimerRunning | TimerFired | TimerDrained

datatype send_status = Returned timer_state | InSelect | StuckDraining

fun sendWorkItem ::
  "'c pool \<Rightarrow> qid \<Rightarrow> timer_state \<Rightarrow> select_outcome list \<Rightarrow> 'c pool \<times> send_status" where
  "sendWorkItem s q TimerDrained outcomes = (s, StuckDraining)"
| "sendWorkItem s q tm [] = (s, InSelect)"
| "sendWorkItem s q tm (WorkChSent # outcomes) = (s, Returned TimerRunning)"
| "sendWorkItem s q tm (TimerC_WorkChSent # outcomes) = (s, Returned TimerDrained)"
| "sendWorkItem s q tm (TimerC_Token # outcomes) =
     (case start_worker s q True of
        None \<Rightarrow> (s, InSelect)
      | Some s1 \<Rightarrow> sendWorkItem s1 q TimerDrained outcomes)"

text \<open>
  The steps of the pool interleave: the scheduler starts, a pass of \<^verbatim>\<open>sendWorkItem\<close>,
  or a turn of the live worker number \<open>k\<close>, which leaves the pool when it has returned
  and its deferred function is done. The items and the results given to a worker's
  turn are arbitrary, and so are the number and the order of the passes: the runs of the
  pool include every run of the source, where a call of \<^verbatim>\<open>sendWorkItem\<close> makes at most
  one pass that starts a worker.
\<close>

datatype 'c pool_event =
    SchedulerStarts
  | SendWorkItemPass select_outcome
  | WorkerTurn nat "'c worker_event"

definition pool_step ::
  "('c Bot \<Rightarrow> qid \<Rightarrow> bool \<Rightarrow> 'c worker_event \<Rightarrow> 'c Bot \<times> worker_status)
     \<Rightarrow> qid \<Rightarrow> 'c pool \<Rightarrow> 'c pool_event \<Rightarrow> 'c pool" where
  "pool_step turn q s ev =
     (case ev of
        SchedulerStarts \<Rightarrow> (case reapScheduler_start s q of None \<Rightarrow> s | Some s1 \<Rightarrow> s1)
      | SendWorkItemPass outcome \<Rightarrow> fst (sendWorkItem_pass s q outcome)
      | WorkerTurn k wev \<Rightarrow>
          if k < length (pool_workers s)
          then (case turn (pool_bot s) q (pool_workers s ! k) wev of
                  (b1, Exited) \<Rightarrow>
                    s\<lparr>pool_bot := b1,
                      pool_workers := take k (pool_workers s) @ drop (Suc k) (pool_workers s)\<rparr>
                | (b1, st) \<Rightarrow> s\<lparr>pool_bot := b1\<rparr>)
          else s)"

definition pool_run ::
  "('c Bot \<Rightarrow> qid \<Rightarrow> bool \<Rightarrow> 'c worker_event \<Rightarrow> 'c Bot \<times> worker_status)
     \<Rightarrow> qid \<Rightarrow> 'c pool \<Rightarrow> 'c pool_event list \<Rightarrow> 'c pool" where
  "pool_run turn q s evs = foldl (pool_step turn q) s evs"

section \<open>Runs of a queue\<close>

text \<open>
  The heap of a queue changes in two places only: \<^verbatim>\<open>Update\<close>, and the pop of a pass
  of \<^verbatim>\<open>WaitForNext\<close>. The states a queue reaches are the runs of these two from
  \<^verbatim>\<open>newReapQueue\<close>.
\<close>

datatype 'c queue_op = CallUpdate 'c Time | WaitPass Time

definition queue_step :: "'c reapQueue \<Rightarrow> 'c queue_op \<Rightarrow> 'c reapQueue" where
  "queue_step q op =
     (case op of
        CallUpdate c t \<Rightarrow> Update q c t
      | WaitPass now \<Rightarrow> (case WaitForNext_pass q now of Popped it q' \<Rightarrow> q' | _ \<Rightarrow> q))"

definition queue_run :: "'c reapQueue \<Rightarrow> 'c queue_op list \<Rightarrow> 'c reapQueue" where
  "queue_run q ops = foldl queue_step q ops"

section \<open>Predicates of the proofs\<close>

text \<open>
  An entry is what an item schedules, its channel and its due time; the \<^verbatim>\<open>index\<close>
  field is bookkeeping that no comparison reads. \<open>heap_ok h n\<close> is the heap order on
  the first \<open>n\<close> slots: no slot is due before its parent \<open>(k - 1) div 2\<close>. The two
  weakened forms allow the one edge that \<^verbatim>\<open>up\<close>, respectively \<^verbatim>\<open>down\<close>, is about to
  repair, and relate the grandparent to the children across it.
\<close>

definition entry :: "'c pqItem \<Rightarrow> 'c \<times> Time" where
  "entry e = (ch e, nextReap e)"

definition entries :: "'c priorityQueue \<Rightarrow> ('c \<times> Time) list" where
  "entries h = map entry h"

definition due :: "'c priorityQueue \<Rightarrow> nat \<Rightarrow> Time" where
  "due h k = nextReap (h ! k)"

definition heap_ok :: "'c priorityQueue \<Rightarrow> nat \<Rightarrow> bool" where
  "heap_ok h n = (\<forall>k. 0 < k \<and> k < n \<longrightarrow> due h ((k - 1) div 2) \<le> due h k)"

definition except_up :: "'c priorityQueue \<Rightarrow> nat \<Rightarrow> nat \<Rightarrow> bool" where
  "except_up h n j =
     ((\<forall>k. 0 < k \<and> k < n \<and> k \<noteq> j \<longrightarrow> due h ((k - 1) div 2) \<le> due h k) \<and>
      (\<forall>k. 0 < k \<and> k < n \<and> (k - 1) div 2 = j \<and> 0 < j \<longrightarrow> due h ((j - 1) div 2) \<le> due h k))"

definition except_down :: "'c priorityQueue \<Rightarrow> nat \<Rightarrow> nat \<Rightarrow> bool" where
  "except_down h n i =
     ((\<forall>k. 0 < k \<and> k < n \<and> (k - 1) div 2 \<noteq> i \<longrightarrow> due h ((k - 1) div 2) \<le> due h k) \<and>
      (\<forall>k. 0 < k \<and> k < n \<and> (k - 1) div 2 = i \<and> 0 < i \<longrightarrow> due h ((i - 1) div 2) \<le> due h k))"

text \<open>The invariant of a queue: heap order, and one item per channel.\<close>

definition queue_inv :: "'c reapQueue \<Rightarrow> bool" where
  "queue_inv q = (heap_ok (items q) (length (items q)) \<and> distinct (map ch (items q)))"

text \<open>
  The entries that the passes of \<^verbatim>\<open>WaitForNext\<close> pop along a run, oldest first: what
  the dispatch loop receives, in the order in which it receives it.
\<close>

fun queue_pops :: "'c reapQueue \<Rightarrow> 'c queue_op list \<Rightarrow> ('c \<times> Time) list" where
  "queue_pops q [] = []"
| "queue_pops q (CallUpdate c t # ops) = queue_pops (Update q c t) ops"
| "queue_pops q (WaitPass now # ops) =
     (case WaitForNext_pass q now of
        Popped it q' \<Rightarrow> entry it # queue_pops q' ops
      | _ \<Rightarrow> queue_pops q ops)"

section \<open>Concrete states\<close>

text \<open>
  States at which the theorems are evaluated: a bot with two fresh queues whose channels
  all carry the load delay \<open>d\<close>, and the results of an uneventful work item (nothing
  disabled, no error, no refresh asked for).
\<close>

definition fresh_bot :: "nat \<Rightarrow> Duration \<Rightarrow> 'c Bot" where
  "fresh_bot maxWorkerCount d =
     \<lparr>reaper = newReapQueue maxWorkerCount,
      loadRetries = newReapQueue maxWorkerCount,
      loadFailures = (\<lambda>c. d)\<rparr>"

definition plain_ext :: ext where
  "plain_ext =
     \<lparr>IsDisabled = False, LoadBacklog = None,
      collect_shouldQueueBacklog = False, collect_isDisabled = False,
      Reap_count = 0, Reap_err = None, handleCriticalPermissionsErrors = False,
      GetNextDeletionTime = 0, Intn = 0, Now = 0\<rparr>"

text \<open>The bot after the dispatch loop of queue \<open>q\<close> has popped channel \<open>c\<close>.\<close>

definition in_flight_bot :: "nat \<Rightarrow> Duration \<Rightarrow> qid \<Rightarrow> 'c \<Rightarrow> 'c Bot" where
  "in_flight_bot maxWorkerCount d q c =
     set_queue (fresh_bot maxWorkerCount d) q
       (fst (reapScheduler_body (get_queue (fresh_bot maxWorkerCount d) q) c))"

section \<open>Swaps and the two repair loops\<close>

lemma parent_less: "0 < k \<Longrightarrow> (k - 1) div 2 < (k::nat)"
  by arith

lemma heap_okD: "heap_ok h n \<Longrightarrow> 0 < k \<Longrightarrow> k < n \<Longrightarrow> due h ((k - 1) div 2) \<le> due h k"
  by (simp add: heap_ok_def)

lemma except_upD1:
  "except_up h n j \<Longrightarrow> 0 < k \<Longrightarrow> k < n \<Longrightarrow> k \<noteq> j \<Longrightarrow> due h ((k - 1) div 2) \<le> due h k"
  by (simp add: except_up_def)

lemma except_upD2:
  "except_up h n j \<Longrightarrow> 0 < k \<Longrightarrow> k < n \<Longrightarrow> (k - 1) div 2 = j \<Longrightarrow> 0 < j \<Longrightarrow>
   due h ((j - 1) div 2) \<le> due h k"
  by (simp add: except_up_def)

lemma except_downD1:
  "except_down h n i \<Longrightarrow> 0 < k \<Longrightarrow> k < n \<Longrightarrow> (k - 1) div 2 \<noteq> i \<Longrightarrow>
   due h ((k - 1) div 2) \<le> due h k"
  by (simp add: except_down_def)

lemma except_downD2:
  "except_down h n i \<Longrightarrow> 0 < k \<Longrightarrow> k < n \<Longrightarrow> (k - 1) div 2 = i \<Longrightarrow> 0 < i \<Longrightarrow>
   due h ((i - 1) div 2) \<le> due h k"
  by (simp add: except_down_def)

lemma Swap_eq:
  "i < length h \<Longrightarrow> j < length h \<Longrightarrow>
   Swap h i j = h[i := (h ! j)\<lparr>index := int i\<rparr>, j := (h ! i)\<lparr>index := int j\<rparr>]"
  by (auto simp: Swap_def Let_def list_eq_iff_nth_eq nth_list_update)

lemma length_Swap [simp]: "length (Swap h i j) = length h"
  by (simp add: Swap_def Let_def)

lemma due_Swap:
  "i < length h \<Longrightarrow> j < length h \<Longrightarrow> k < length h \<Longrightarrow>
   due (Swap h i j) k = (if k = j then due h i else if k = i then due h j else due h k)"
  by (simp add: Swap_eq due_def nth_list_update)

lemma entries_Swap:
  "i < length h \<Longrightarrow> j < length h \<Longrightarrow>
   entries (Swap h i j) = (entries h)[i := entries h ! j, j := entries h ! i]"
  by (simp add: Swap_eq entries_def entry_def map_update)

lemma length_entries [simp]: "length (entries h) = length h"
  by (simp add: entries_def)

lemma mset_entries_Swap:
  "i < length h \<Longrightarrow> j < length h \<Longrightarrow> mset (entries (Swap h i j)) = mset (entries h)"
  by (simp add: entries_Swap mset_swap)

lemma length_up [simp]: "length (up h j) = length h"
  by (induction h j rule: up.induct) (subst up.simps, simp add: Let_def)

lemma mset_entries_up: "j < length h \<Longrightarrow> mset (entries (up h j)) = mset (entries h)"
proof (induction h j rule: up.induct)
  case (1 h j)
  show ?case
  proof (cases "(j - 1) div 2 = j \<or> \<not> Less h j ((j - 1) div 2)")
    case True
    then show ?thesis by (subst up.simps) (simp add: Let_def)
  next
    case False
    have lt: "(j - 1) div 2 < length h" using "1.prems" by simp
    have "mset (entries (up (Swap h ((j - 1) div 2) j) ((j - 1) div 2))) =
          mset (entries (Swap h ((j - 1) div 2) j))"
      using "1.IH" [OF refl] False lt by simp
    then show ?thesis
      using False lt "1.prems" by (subst up.simps) (simp add: Let_def mset_entries_Swap)
  qed
qed

lemma up_heap_ok:
  "j < n \<Longrightarrow> n \<le> length h \<Longrightarrow> except_up h n j \<Longrightarrow> heap_ok (up h j) n"
proof (induction h j rule: up.induct)
  case (1 h j)
  define i where "i = (j - 1) div 2"
  note ex = "1.prems"(3)
  show ?case
  proof (cases "i = j \<or> \<not> Less h j i")
    case True
    have "heap_ok h n"
      unfolding heap_ok_def
    proof (intro allI impI, elim conjE)
      fix k assume k0: "0 < k" and kn: "k < n"
      show "due h ((k - 1) div 2) \<le> due h k"
      proof (cases "k = j")
        case False
        then show ?thesis by (rule except_upD1 [OF ex k0 kn])
      next
        case kj: True
        with k0 parent_less [of j] have "i \<noteq> j" by (simp add: i_def)
        with True have "\<not> Less h j i" by simp
        then show ?thesis unfolding kj i_def by (simp add: Less_def Before_def due_def)
      qed
    qed
    moreover have "up h j = h"
      using True by (subst up.simps) (simp add: Let_def i_def)
    ultimately show ?thesis by simp
  next
    case False
    then have ij: "i \<noteq> j" and less: "due h j < due h i"
      by (simp_all add: Less_def Before_def due_def)
    have j0: "0 < j" using ij by (cases j) (auto simp: i_def)
    have ilt: "i < j" unfolding i_def using j0 by (rule parent_less)
    have iln: "i < n" "i < length h" "j < length h" using ilt "1.prems" by auto
    have ex': "except_up (Swap h i j) n i"
      unfolding except_up_def
    proof (intro conjI allI impI; elim conjE)
      fix k assume k0: "0 < k" and kn: "k < n" and ki: "k \<noteq> i"
      define p where "p = (k - 1) div 2"
      have kl: "k < length h" using kn "1.prems" by simp
      have pk: "p < k" unfolding p_def using k0 by (rule parent_less)
      then have pl: "p < length h" using kl by simp
      have "due (Swap h i j) p \<le> due (Swap h i j) k"
      proof (cases "k = j")
        case True
        then have "p = i" by (simp add: p_def i_def)
        then show ?thesis using True less iln ij by (simp add: due_Swap)
      next
        case kj: False
        have e1: "due h p \<le> due h k"
          unfolding p_def by (rule except_upD1 [OF ex k0 kn kj])
        show ?thesis
        proof (cases "p = j")
          case True
          have "due h ((j - 1) div 2) \<le> due h k"
            by (rule except_upD2 [OF ex k0 kn True [unfolded p_def] j0])
          then show ?thesis using iln kl kj ki ij True by (simp add: due_Swap i_def)
        next
          case pj: False
          show ?thesis
          proof (cases "p = i")
            case True
            then show ?thesis using e1 less iln kl kj ki ij by (simp add: due_Swap)
          next
            case False
            then show ?thesis using e1 pj iln kl pl ki kj by (simp add: due_Swap)
          qed
        qed
      qed
      then show "due (Swap h i j) ((k - 1) div 2) \<le> due (Swap h i j) k"
        by (simp only: p_def)
    next
      fix k assume k0: "0 < k" and kn: "k < n" and kp: "(k - 1) div 2 = i" and i0: "0 < i"
      define g where "g = (i - 1) div 2"
      have kl: "k < length h" using kn "1.prems" by simp
      have gi: "g < i" unfolding g_def using i0 by (rule parent_less)
      then have gl: "g < length h" "g \<noteq> j" "g \<noteq> i"
        using iln ilt by auto
      have ei: "due h g \<le> due h i"
        unfolding g_def by (rule except_upD1 [OF ex i0 iln(1) ij])
      have ki: "k \<noteq> i" using parent_less [OF k0] unfolding kp by simp
      have "due (Swap h i j) g \<le> due (Swap h i j) k"
      proof (cases "k = j")
        case True
        then show ?thesis using ei gl iln by (simp add: due_Swap)
      next
        case False
        have "due h ((k - 1) div 2) \<le> due h k"
          by (rule except_upD1 [OF ex k0 kn False])
        then have "due h i \<le> due h k" unfolding kp .
        then show ?thesis using ei gl iln kl False ki by (simp add: due_Swap)
      qed
      then show "due (Swap h i j) ((i - 1) div 2) \<le> due (Swap h i j) k"
        by (simp only: g_def)
    qed
    have "heap_ok (up (Swap h i j) i) n"
      using "1.IH" [OF refl, folded i_def] False iln ex' "1.prems" by simp
    moreover have "up h j = up (Swap h i j) i"
      using False by (subst up.simps) (simp add: Let_def i_def)
    ultimately show ?thesis by simp
  qed
qed

lemma child_cases: "0 < k \<Longrightarrow> (k - 1) div 2 = i \<Longrightarrow> k = 2 * i + 1 \<or> k = 2 * i + 2"
  for k i :: nat
  by arith

lemma down_loop_stop: "n \<le> 2 * i + 1 \<Longrightarrow> down_loop h i n = (h, i)"
  by (subst down_loop.simps) (simp add: Let_def)

lemma down_loop_keep:
  "2 * i + 1 < n \<Longrightarrow>
   j = (if 2 * i + 2 < n \<and> Less h (2 * i + 2) (2 * i + 1) then 2 * i + 2 else 2 * i + 1) \<Longrightarrow>
   \<not> Less h j i \<Longrightarrow> down_loop h i n = (h, i)"
  by (subst down_loop.simps) (auto simp: Let_def split: if_splits)

lemma down_loop_step:
  "2 * i + 1 < n \<Longrightarrow>
   j = (if 2 * i + 2 < n \<and> Less h (2 * i + 2) (2 * i + 1) then 2 * i + 2 else 2 * i + 1) \<Longrightarrow>
   Less h j i \<Longrightarrow> down_loop h i n = down_loop (Swap h i j) j n"
  by (subst down_loop.simps) (auto simp: Let_def split: if_splits)

lemma down_loop_induct [consumes 0, case_names stop keep step]:
  assumes "\<And>h i n. n \<le> 2 * i + 1 \<Longrightarrow> P h i n"
    and "\<And>h i n j. 2 * i + 1 < n \<Longrightarrow>
           j = (if 2 * i + 2 < n \<and> Less h (2 * i + 2) (2 * i + 1) then 2 * i + 2 else 2 * i + 1) \<Longrightarrow>
           \<not> Less h j i \<Longrightarrow> P h i n"
    and "\<And>h i n j. 2 * i + 1 < n \<Longrightarrow>
           j = (if 2 * i + 2 < n \<and> Less h (2 * i + 2) (2 * i + 1) then 2 * i + 2 else 2 * i + 1) \<Longrightarrow>
           Less h j i \<Longrightarrow> P (Swap h i j) j n \<Longrightarrow> P h i n"
  shows "P h i n"
proof (induction h i n rule: down_loop.induct)
  case (1 h i n)
  define j where "j = (if 2 * i + 2 < n \<and> Less h (2 * i + 2) (2 * i + 1) then 2 * i + 2 else 2 * i + 1)"
  show ?case
  proof (cases "n \<le> 2 * i + 1")
    case True
    then show ?thesis by (rule assms(1))
  next
    case False
    then have lt: "2 * i + 1 < n" by simp
    show ?thesis
    proof (cases "Less h j i")
      case nl: False
      show ?thesis by (rule assms(2) [OF lt j_def nl])
    next
      case True
      have "P (Swap h i j) j n"
        using "1.IH" [OF refl False refl refl] True unfolding j_def
        by (auto split: if_splits)
      then show ?thesis by (rule assms(3) [OF lt j_def True])
    qed
  qed
qed

lemma length_down_loop [simp]: "length (fst (down_loop h i n)) = length h"
proof (induction h i n rule: down_loop_induct)
  case (stop h i n)
  then show ?case by (simp add: down_loop_stop)
next
  case (keep h i n j)
  then show ?case by (simp add: down_loop_keep)
next
  case (step h i n j)
  then show ?case by (simp add: down_loop_step [OF step(1,2,3)])
qed

lemma mset_entries_down_loop:
  "n \<le> length h \<Longrightarrow> mset (entries (fst (down_loop h i n))) = mset (entries h)"
proof (induction h i n rule: down_loop_induct)
  case (stop h i n)
  then show ?case by (simp add: down_loop_stop)
next
  case (keep h i n j)
  then show ?case by (simp add: down_loop_keep)
next
  case (step h i n j)
  have "j < n" "i < n" using step(1,2) by (simp_all split: if_splits)
  then have "j < length h" "i < length h" using step.prems by simp_all
  then show ?case
    using step(4) step.prems by (simp add: down_loop_step [OF step(1,2,3)] mset_entries_Swap)
qed

lemma down_loop_frame:
  "n \<le> length h \<Longrightarrow> n \<le> k \<Longrightarrow> k < length h \<Longrightarrow> fst (down_loop h i n) ! k = h ! k"
proof (induction h i n rule: down_loop_induct)
  case (stop h i n)
  then show ?case by (simp add: down_loop_stop)
next
  case (keep h i n j)
  then show ?case by (simp add: down_loop_keep)
next
  case (step h i n j)
  have "j < n" "i < n" using step(1,2) by (simp_all split: if_splits)
  then have l: "j < length h" "i < length h" "k \<noteq> i" "k \<noteq> j" using step.prems by simp_all
  have "Swap h i j ! k = h ! k" using l step.prems by (simp add: Swap_eq)
  then show ?case
    using step(4) step.prems by (simp add: down_loop_step [OF step(1,2,3)])
qed

lemma down_heap_ok:
  "n \<le> length h \<Longrightarrow> except_down h n i \<Longrightarrow> (0 < i \<longrightarrow> due h ((i - 1) div 2) \<le> due h i) \<Longrightarrow>
   heap_ok (fst (down_loop h i n)) n"
proof (induction h i n rule: down_loop_induct)
  case (stop h i n)
  have "heap_ok h n"
    unfolding heap_ok_def
  proof (intro allI impI, elim conjE)
    fix k assume k0: "0 < k" and kn: "k < n"
    have "(k - 1) div 2 \<noteq> i" using child_cases [OF k0, of i] kn stop(1) by auto
    then show "due h ((k - 1) div 2) \<le> due h k" by (rule except_downD1 [OF stop(3) k0 kn])
  qed
  then show ?case using stop(1) by (simp add: down_loop_stop)
next
  case (keep h i n j)
  have jn: "j < n" and pj: "(j - 1) div 2 = i" and j0: "0 < j"
    using keep(1,2) by (simp_all split: if_splits)
  have ij: "due h i \<le> due h j" using keep(3) by (simp add: Less_def Before_def due_def)
  have "heap_ok h n"
    unfolding heap_ok_def
  proof (intro allI impI, elim conjE)
    fix k assume k0: "0 < k" and kn: "k < n"
    show "due h ((k - 1) div 2) \<le> due h k"
    proof (cases "(k - 1) div 2 = i")
      case False
      then show ?thesis by (rule except_downD1 [OF keep(5) k0 kn])
    next
      case True
      have "due h j \<le> due h k"
        using child_cases [OF k0 True] kn keep(2)
        by (auto simp: Less_def Before_def due_def split: if_splits)
      then show ?thesis using ij unfolding True by simp
    qed
  qed
  then show ?case by (simp add: down_loop_keep [OF keep(1,2,3)])
next
  case (step h i n j)
  note ex = step(6)
  have jn: "j < n" and pj: "(j - 1) div 2 = i" and j0: "0 < j" and ij: "i < j"
    using step(1,2) by (simp_all split: if_splits)
  have l: "i < length h" "j < length h" "i \<noteq> j" using jn ij step.prems(1) by simp_all
  have less: "due h j < due h i" using step(3) by (simp add: Less_def Before_def due_def)
  have minj: "due h j \<le> due h k" if "0 < k" "k < n" "(k - 1) div 2 = i" for k
    using child_cases [OF that(1,3)] that(2) step(2)
    by (auto simp: Less_def Before_def due_def split: if_splits)
  have ex': "except_down (Swap h i j) n j"
    unfolding except_down_def
  proof (intro conjI allI impI; elim conjE)
    fix k assume k0: "0 < k" and kn: "k < n" and kp: "(k - 1) div 2 \<noteq> j"
    define p where "p = (k - 1) div 2"
    have kl: "k < length h" using kn step.prems(1) by simp
    have pk: "p < k" unfolding p_def using k0 by (rule parent_less)
    then have pl: "p < length h" "p \<noteq> j" using kl kp by (simp_all add: p_def)
    have "due (Swap h i j) p \<le> due (Swap h i j) k"
    proof (cases "k = j")
      case True
      then have "p = i" using pj by (simp add: p_def)
      then show ?thesis using True less l by (simp add: due_Swap)
    next
      case kj: False
      show ?thesis
      proof (cases "k = i")
        case True
        then have i0: "0 < i" using k0 by simp
        have "due h ((i - 1) div 2) \<le> due h j"
          by (rule except_downD2 [OF ex j0 jn pj i0])
        moreover have "p \<noteq> i" using pk True by simp
        ultimately show ?thesis using True l pl by (simp add: due_Swap p_def)
      next
        case ki: False
        show ?thesis
        proof (cases "p = i")
          case True
          have "due h j \<le> due h k" using minj [OF k0 kn] True by (simp add: p_def)
          then show ?thesis using True l kl kj ki by (simp add: due_Swap)
        next
          case False
          have "due h p \<le> due h k"
            unfolding p_def by (rule except_downD1 [OF ex k0 kn False [unfolded p_def]])
          then show ?thesis using False l kl pl kj ki by (simp add: due_Swap)
        qed
      qed
    qed
    then show "due (Swap h i j) ((k - 1) div 2) \<le> due (Swap h i j) k"
      by (simp only: p_def)
  next
    fix k assume k0: "0 < k" and kn: "k < n" and kp: "(k - 1) div 2 = j" and j0': "0 < j"
    have kl: "k < length h" using kn step.prems(1) by simp
    have jk: "j < k" using parent_less [OF k0] unfolding kp .
    have "(k - 1) div 2 \<noteq> i" using kp l by simp
    then have "due h ((k - 1) div 2) \<le> due h k" by (rule except_downD1 [OF ex k0 kn])
    then have "due h j \<le> due h k" unfolding kp .
    then have "due (Swap h i j) i \<le> due (Swap h i j) k"
      using l kl jk ij by (simp add: due_Swap)
    then show "due (Swap h i j) ((j - 1) div 2) \<le> due (Swap h i j) k"
      by (simp only: pj)
  qed
  have "due (Swap h i j) i \<le> due (Swap h i j) j" using less l by (simp add: due_Swap)
  then have edge: "0 < j \<longrightarrow> due (Swap h i j) ((j - 1) div 2) \<le> due (Swap h i j) j"
    by (simp only: pj) simp
  have "heap_ok (fst (down_loop (Swap h i j) j n)) n"
    using step.IH ex' edge step.prems(1) by simp
  then show ?case by (simp add: down_loop_step [OF step(1,2,3)])
qed

section \<open>The heap operations keep the order and the entries\<close>

lemma heap_ok_root:
  "heap_ok h n \<Longrightarrow> k < n \<Longrightarrow> due h 0 \<le> due h k"
proof (induction k rule: less_induct)
  case (less k)
  show ?case
  proof (cases "k = 0")
    case True
    then show ?thesis by simp
  next
    case False
    then have k0: "0 < k" by simp
    have p: "(k - 1) div 2 < k" using k0 by (rule parent_less)
    have "due h 0 \<le> due h ((k - 1) div 2)"
      using less.IH [OF p less.prems(1)] p less.prems(2) by simp
    also have "\<dots> \<le> due h k" by (rule heap_okD [OF less.prems(1) k0 less.prems(2)])
    finally show ?thesis .
  qed
qed

lemma up_id:
  "j = 0 \<or> due h ((j - 1) div 2) \<le> due h j \<Longrightarrow> up h j = h"
  by (subst up.simps) (auto simp: Let_def Less_def Before_def due_def)

lemma heap_ok_cong:
  assumes "heap_ok h n" and "\<And>k. k < n \<Longrightarrow> due h' k = due h k"
  shows "heap_ok h' n"
  unfolding heap_ok_def
proof (intro allI impI, elim conjE)
  fix k assume k: "0 < k" "k < n"
  have "(k - 1) div 2 < n" using parent_less [OF k(1)] k(2) by simp
  then show "due h' ((k - 1) div 2) \<le> due h' k"
    using heap_okD [OF assms(1) k] assms(2) k(2) by simp
qed

subsection \<open>Push\<close>

lemma length_heap_Push [simp]: "length (heap_Push h x) = Suc (length h)"
  by (simp add: heap_Push_def pq_Push_def Let_def Len_def)

lemma entries_pq_Push: "entries (pq_Push h x) = entries h @ [entry x]"
  by (simp add: pq_Push_def Let_def entries_def entry_def)

lemma mset_entries_heap_Push:
  "mset (entries (heap_Push h x)) = add_mset (entry x) (mset (entries h))"
proof -
  have "length (pq_Push h x) = Suc (length h)" by (simp add: pq_Push_def Let_def)
  then show ?thesis
    by (simp add: heap_Push_def Let_def Len_def mset_entries_up entries_pq_Push)
qed

lemma heap_ok_heap_Push:
  assumes "heap_ok h (length h)"
  shows "heap_ok (heap_Push h x) (Suc (length h))"
proof -
  define h1 where "h1 = pq_Push h x"
  have len: "length h1 = Suc (length h)" by (simp add: h1_def pq_Push_def Let_def)
  have same: "due h1 k = due h k" if "k < length h" for k
    using that by (simp add: h1_def pq_Push_def Let_def due_def nth_append)
  have "except_up h1 (Suc (length h)) (length h)"
    unfolding except_up_def
  proof (intro conjI allI impI; elim conjE)
    fix k assume k: "0 < k" "k < Suc (length h)" "k \<noteq> length h"
    then have kl: "k < length h" by simp
    then have "(k - 1) div 2 < length h" using parent_less [OF k(1)] by simp
    then show "due h1 ((k - 1) div 2) \<le> due h1 k"
      using heap_okD [OF assms k(1) kl] kl by (simp add: same)
  next
    fix k assume k: "0 < k" "k < Suc (length h)" "(k - 1) div 2 = length h"
    have "length h < k" using parent_less [OF k(1)] unfolding k(3) .
    with k(2) have False by simp
    then show "due h1 ((length h - 1) div 2) \<le> due h1 k" ..
  qed
  then have "heap_ok (up h1 (length h)) (Suc (length h))"
    by (intro up_heap_ok) (simp_all add: len)
  then show ?thesis by (simp add: heap_Push_def Let_def Len_def h1_def [symmetric] len)
qed

subsection \<open>Pop\<close>

lemma heap_Pop_empty [simp]: "heap_Pop [] = None"
  by (simp add: heap_Pop_def Len_def)

lemma heap_Pop_Some:
  assumes "h \<noteq> []"
  shows "\<exists>x h'. heap_Pop h = Some (x, h') \<and> entry x = entry (h ! 0) \<and>
           length h' = length h - 1 \<and>
           mset (entries h) = add_mset (entry x) (mset (entries h')) \<and>
           (heap_ok h (length h) \<longrightarrow> heap_ok h' (length h'))"
proof -
  define n where "n = length h - 1"
  define h1 where "h1 = Swap h 0 n"
  define h2 where "h2 = fst (down_loop h1 0 n)"
  have ln: "length h = Suc n" using assms by (simp add: n_def)
  have l1: "length h1 = Suc n" by (simp add: h1_def ln)
  have l2: "length h2 = Suc n" by (simp add: h2_def l1)
  have pop: "heap_Pop h = Some (pq_Pop h2)"
    using assms by (simp add: heap_Pop_def Len_def Let_def down_def n_def h1_def h2_def
        split: prod.splits)
  have last2: "h2 ! n = h1 ! n"
    unfolding h2_def by (rule down_loop_frame) (simp_all add: l1)
  have last1: "entry (h1 ! n) = entry (h ! 0)"
    by (simp add: h1_def Swap_eq ln entry_def)
  have m2: "mset (entries h2) = mset (entries h)"
    unfolding h2_def h1_def
    by (simp add: mset_entries_down_loop ln mset_entries_Swap)
  have split2: "h2 = take n h2 @ [h2 ! n]"
    using l2 by (metis lessI take_Suc_conv_app_nth take_all order_refl)
  have e2: "entries h2 = entries (take n h2) @ [entry (h2 ! n)]"
    by (subst split2) (simp add: entries_def)
  have ok: "heap_ok (take n h2) n" if hk: "heap_ok h (length h)"
  proof -
    have "except_down h1 n 0"
      unfolding except_down_def
    proof (intro conjI allI impI; elim conjE)
      fix k assume k: "0 < k" "k < n" "(k - 1) div 2 \<noteq> 0"
      have kl: "k < length h" using k(2) ln by simp
      have p: "(k - 1) div 2 < k" using k(1) by (rule parent_less)
      have "due h1 ((k - 1) div 2) = due h ((k - 1) div 2)"
        unfolding h1_def using p k ln by (subst due_Swap) simp_all
      moreover have "due h1 k = due h k"
        unfolding h1_def using k ln by (subst due_Swap) simp_all
      ultimately show "due h1 ((k - 1) div 2) \<le> due h1 k"
        using heap_okD [OF hk k(1) kl] by simp
    qed simp
    then have "heap_ok h2 n"
      unfolding h2_def by (rule down_heap_ok [rotated]) (simp_all add: l1)
    then show ?thesis
      by (rule heap_ok_cong) (simp add: due_def)
  qed
  show ?thesis
    using pop last1 last2 m2 e2 ok l2 ln
    by (simp add: pq_Pop_def Let_def entry_def)
qed

subsection \<open>Fix\<close>

lemma down_loop_noop:
  assumes "\<And>k. 0 < k \<Longrightarrow> k < n \<Longrightarrow> (k - 1) div 2 = i \<Longrightarrow> due h i \<le> due h k"
  shows "down_loop h i n = (h, i)"
proof (cases "n \<le> 2 * i + 1")
  case True
  then show ?thesis by (rule down_loop_stop)
next
  case False
  define j where
    "j = (if 2 * i + 2 < n \<and> Less h (2 * i + 2) (2 * i + 1) then 2 * i + 2 else 2 * i + 1)"
  have "0 < j" "j < n" "(j - 1) div 2 = i"
    using False by (simp_all add: j_def)
  then have "due h i \<le> due h j" by (rule assms)
  then have "\<not> Less h j i" by (simp add: Less_def Before_def due_def)
  with False show ?thesis by (intro down_loop_keep [OF _ j_def]) simp_all
qed

lemma length_heap_Fix [simp]: "length (heap_Fix h i) = length h"
  by (simp add: heap_Fix_def down_def split: prod.splits)
    (metis fst_conv length_down_loop)

lemma mset_entries_heap_Fix:
  "i < length h \<Longrightarrow> mset (entries (heap_Fix h i)) = mset (entries h)"
proof -
  assume i: "i < length h"
  obtain h1 m where d: "down_loop h i (length h) = (h1, m)" by (cases "down_loop h i (length h)")
  have l1: "length h1 = length h" using length_down_loop [of h i "length h"] d by simp
  have m1: "mset (entries h1) = mset (entries h)"
    using mset_entries_down_loop [of "length h" h i] d by simp
  show ?thesis
    using i l1 m1 by (simp add: heap_Fix_def down_def Len_def d mset_entries_up)
qed

lemma heap_ok_heap_Fix:
  assumes ok: "heap_ok h (length h)" and i: "i < length h"
  shows "heap_ok (heap_Fix (h[i := (h ! i)\<lparr>nextReap := t\<rparr>]) i) (length h)"
proof -
  define n where "n = length h"
  define h' where "h' = h[i := (h ! i)\<lparr>nextReap := t\<rparr>]"
  define p where "p = (i - 1) div 2"
  have l': "length h' = n" by (simp add: h'_def n_def)
  have due_i: "due h' i = t" using i by (simp add: h'_def due_def)
  have due_k: "due h' k = due h k" if "k \<noteq> i" for k
    using that by (simp add: h'_def due_def)
  have okD: "due h ((k - 1) div 2) \<le> due h k" if "0 < k" "k < n" for k
    using heap_okD [OF ok that(1)] that(2) by (simp add: n_def)
  have below: "due h i \<le> due h k" if "0 < k" "k < n" "(k - 1) div 2 = i" for k
    using okD [OF that(1,2)] that(3) by simp
  have above: "due h p \<le> due h i" if "0 < i"
    unfolding p_def using okD [OF that] i by (simp add: n_def)
  have pi: "p \<noteq> i" if "0 < i" using parent_less [OF that] by (simp add: p_def)
  have ki: "k \<noteq> i" if "0 < k" "(k - 1) div 2 = i" for k
    using parent_less [OF that(1)] that(2) by simp
  have fx: "heap_Fix h' i =
      (if \<not> i < snd (down_loop h' i n) then up (fst (down_loop h' i n)) i
       else fst (down_loop h' i n))"
    by (simp add: heap_Fix_def down_def Len_def l' split: prod.splits)
  have "heap_ok (heap_Fix h' i) n"
  proof (cases "i = 0 \<or> due h p \<le> t")
    case True
    have "except_down h' n i"
      unfolding except_down_def
    proof (intro conjI allI impI; elim conjE)
      fix k assume k: "0 < k" "k < n" "(k - 1) div 2 \<noteq> i"
      show "due h' ((k - 1) div 2) \<le> due h' k"
      proof (cases "k = i")
        case True
        with k(1) \<open>i = 0 \<or> due h p \<le> t\<close> have "due h p \<le> t" by simp
        then show ?thesis using True k(3) by (simp add: due_i due_k p_def)
      next
        case False
        then show ?thesis using okD [OF k(1,2)] k(3) by (simp add: due_k)
      qed
    next
      fix k assume k: "0 < k" "k < n" "(k - 1) div 2 = i" "0 < i"
      have "due h p \<le> due h k" using above [OF k(4)] below [OF k(1,2,3)] by simp
      then show "due h' ((i - 1) div 2) \<le> due h' k"
        using pi [OF k(4)] ki [OF k(1,3)] by (simp add: due_k p_def)
    qed
    moreover have "0 < i \<longrightarrow> due h' ((i - 1) div 2) \<le> due h' i"
      using True pi by (auto simp: due_i due_k p_def)
    ultimately have ok1: "heap_ok (fst (down_loop h' i n)) n"
      by (intro down_heap_ok) (simp_all add: l')
    have "up (fst (down_loop h' i n)) i = fst (down_loop h' i n)"
    proof (rule up_id, cases "i = 0")
      case False
      then have "due (fst (down_loop h' i n)) ((i - 1) div 2) \<le> due (fst (down_loop h' i n)) i"
        using heap_okD [OF ok1, of i] i by (simp add: n_def)
      then show "i = 0 \<or> due (fst (down_loop h' i n)) ((i - 1) div 2)
          \<le> due (fst (down_loop h' i n)) i" ..
    qed simp
    then show ?thesis using ok1 by (simp add: fx)
  next
    case False
    then have i0: "0 < i" and lt: "t < due h p" by simp_all
    have tk: "t \<le> due h k" if "0 < k" "k < n" "(k - 1) div 2 = i" for k
      using lt above [OF i0] below [OF that] by simp
    have "down_loop h' i n = (h', i)"
    proof (rule down_loop_noop)
      fix k assume k: "0 < k" "k < n" "(k - 1) div 2 = i"
      show "due h' i \<le> due h' k" using tk [OF k] ki [OF k(1,3)] by (simp add: due_i due_k)
    qed
    then have f: "heap_Fix h' i = up h' i" by (simp add: fx)
    have "except_up h' n i"
      unfolding except_up_def
    proof (intro conjI allI impI; elim conjE)
      fix k assume k: "0 < k" "k < n" "k \<noteq> i"
      show "due h' ((k - 1) div 2) \<le> due h' k"
      proof (cases "(k - 1) div 2 = i")
        case True
        then show ?thesis using tk [OF k(1,2) True] k(3) by (simp add: due_i due_k)
      next
        case False
        then show ?thesis using okD [OF k(1,2)] k(3) by (simp add: due_k)
      qed
    next
      fix k assume k: "0 < k" "k < n" "(k - 1) div 2 = i" "0 < i"
      have "due h p \<le> due h k" using above [OF k(4)] below [OF k(1,2,3)] by simp
      then show "due h' ((i - 1) div 2) \<le> due h' k"
        using pi [OF k(4)] ki [OF k(1,3)] by (simp add: due_k p_def)
    qed
    then have "heap_ok (up h' i) n"
      using i by (intro up_heap_ok) (simp_all add: l' n_def)
    then show ?thesis by (simp add: f)
  qed
  then show ?thesis by (simp add: h'_def n_def)
qed

section \<open>Update\<close>

lemma scan_absent: "c \<notin> ch ` set h \<Longrightarrow> scan h c i = - 1"
  by (induction h arbitrary: i) auto

lemma scan_present:
  "c \<in> ch ` set h \<Longrightarrow> 0 \<le> i \<Longrightarrow> \<exists>k<length h. scan h c i = i + int k \<and> ch (h ! k) = c"
proof (induction h arbitrary: i)
  case Nil
  then show ?case by simp
next
  case (Cons v vs)
  show ?case
  proof (cases "ch v = c")
    case True
    then show ?thesis by (intro exI [of _ 0]) simp
  next
    case False
    with Cons.prems have "c \<in> ch ` set vs" by auto
    from Cons.IH [OF this, of "i + 1"] Cons.prems(2)
    obtain k where "k < length vs" "scan vs c (i + 1) = i + 1 + int k" "ch (vs ! k) = c"
      by auto
    then show ?thesis using False by (intro exI [of _ "Suc k"]) simp
  qed
qed

lemma items_Update_absent:
  "c \<notin> ch ` set (items q) \<Longrightarrow>
   items (Update q c t) = heap_Push (items q) \<lparr>ch = c, nextReap = t, index = 0\<rparr>"
  by (simp add: Update_def scan_absent)

lemma items_Update_present:
  assumes "c \<in> ch ` set (items q)"
  shows "\<exists>k<length (items q). ch (items q ! k) = c \<and>
           items (Update q c t) = heap_Fix ((items q)[k := (items q ! k)\<lparr>nextReap := t\<rparr>]) k"
proof -
  from scan_present [OF assms, of 0]
  obtain k where k: "k < length (items q)" "scan (items q) c 0 = int k" "ch (items q ! k) = c"
    by auto
  then show ?thesis by (intro exI [of _ k]) (simp add: Update_def Let_def)
qed

lemma Update_frame [simp]:
  "controlCh (Update q c t) = controlCh q" "curWork (Update q c t) = curWork q"
  by (simp_all add: Update_def Let_def)

lemma map_fst_entries: "map fst (entries h) = map ch h"
  by (simp add: entries_def entry_def comp_def)

lemma entries_update:
  "entries (h[k := (h ! k)\<lparr>nextReap := t\<rparr>]) = (entries h)[k := (ch (h ! k), t)]"
  by (simp add: entries_def entry_def map_update)

lemma mset_chans: "mset (map ch h) = image_mset fst (mset (entries h))"
  by (simp add: entries_def entry_def multiset.map_comp comp_def)

lemma distinct_chans_mset:
  assumes "mset (entries h') = mset (entries h)"
  shows "distinct (map ch h') = distinct (map ch h)"
proof -
  have "image_mset fst (mset (entries h')) = image_mset fst (mset (entries h))"
    using assms by simp
  then have "mset (map ch h') = mset (map ch h)" by (simp only: mset_chans)
  then show ?thesis by (rule mset_eq_imp_distinct_iff)
qed

lemma filter_key_one:
  "distinct (map f xs) \<Longrightarrow> c \<in> f ` set xs \<Longrightarrow> length (filter (\<lambda>e. f e = c) xs) = 1"
proof (induction xs)
  case Nil
  then show ?case by simp
next
  case (Cons x xs)
  show ?case
  proof (cases "f x = c")
    case True
    then have "c \<notin> f ` set xs" using Cons.prems(1) by auto
    then have "filter (\<lambda>e. f e = c) xs = []" by (auto simp: filter_empty_conv)
    then show ?thesis using True by simp
  next
    case False
    then show ?thesis using Cons by auto
  qed
qed

lemma length_items_Update:
  "length (items (Update q c t)) =
     (if c \<in> ch ` set (items q) then length (items q) else Suc (length (items q)))"
proof (cases "c \<in> ch ` set (items q)")
  case True
  from items_Update_present [OF True, of t] show ?thesis using True by auto
next
  case False
  then show ?thesis by (simp add: items_Update_absent)
qed

lemma queue_inv_Update:
  assumes "queue_inv q"
  shows "queue_inv (Update q c t)"
proof (cases "c \<in> ch ` set (items q)")
  case False
  let ?x = "\<lparr>ch = c, nextReap = t, index = 0\<rparr>"
  have "mset (map ch (heap_Push (items q) ?x)) =
        image_mset fst (mset (entries (heap_Push (items q) ?x)))"
    by (rule mset_chans)
  also have "\<dots> = add_mset c (image_mset fst (mset (entries (items q))))"
    by (simp add: mset_entries_heap_Push entry_def)
  also have "\<dots> = add_mset c (mset (map ch (items q)))"
    by (simp only: mset_chans)
  finally have "mset (map ch (heap_Push (items q) ?x)) = mset (c # map ch (items q))"
    by simp
  then have "distinct (map ch (heap_Push (items q) ?x)) = distinct (c # map ch (items q))"
    by (rule mset_eq_imp_distinct_iff)
  then show ?thesis
    using assms False by (simp add: queue_inv_def items_Update_absent heap_ok_heap_Push)
next
  case True
  from items_Update_present [OF True, of t]
  obtain k where k: "k < length (items q)" "ch (items q ! k) = c"
    "items (Update q c t) = heap_Fix ((items q)[k := (items q ! k)\<lparr>nextReap := t\<rparr>]) k"
    by auto
  let ?h' = "(items q)[k := (items q ! k)\<lparr>nextReap := t\<rparr>]"
  have "map ch ?h' = map ch (items q)"
    using k(1) by (simp add: list_eq_iff_nth_eq nth_list_update)
  moreover have "distinct (map ch (heap_Fix ?h' k)) = distinct (map ch ?h')"
    by (rule distinct_chans_mset) (simp add: mset_entries_heap_Fix k(1))
  ultimately show ?thesis
    using assms k by (simp add: queue_inv_def heap_ok_heap_Fix)
qed

lemma entry_in_Update: "(c, t) \<in> set (entries (items (Update q c t)))"
proof (cases "c \<in> ch ` set (items q)")
  case False
  have "(c, t) \<in># mset (entries (items (Update q c t)))"
    by (simp add: items_Update_absent [OF False] mset_entries_heap_Push entry_def)
  then show ?thesis by simp
next
  case True
  from items_Update_present [OF True, of t]
  obtain k where k: "k < length (items q)" "ch (items q ! k) = c"
    "items (Update q c t) = heap_Fix ((items q)[k := (items q ! k)\<lparr>nextReap := t\<rparr>]) k"
    by auto
  have "(c, t) \<in> set ((entries (items q))[k := (c, t)])"
    using k(1) by (simp add: set_update_memI)
  then have "(c, t) \<in># mset (entries ((items q)[k := (items q ! k)\<lparr>nextReap := t\<rparr>]))"
    by (simp add: entries_update k(2))
  then have "(c, t) \<in># mset (entries (items (Update q c t)))"
    by (simp add: k(3) mset_entries_heap_Fix k(1))
  then show ?thesis by simp
qed

lemma entry_iff: "(c, t) \<in> set (entries h) \<longleftrightarrow> (\<exists>e\<in>set h. ch e = c \<and> nextReap e = t)"
  by (auto simp: entries_def entry_def)

lemma queue_inv_unique:
  assumes "queue_inv q" and "(c, t) \<in> set (entries (items q))"
  shows "length (filter (\<lambda>e. ch e = c) (items q)) = 1"
    and "\<forall>e\<in>set (items q). ch e = c \<longrightarrow> nextReap e = t"
proof -
  have d: "distinct (map fst (entries (items q)))"
    using assms(1) by (simp add: queue_inv_def map_fst_entries)
  have "c \<in> ch ` set (items q)" using assms(2) by (auto simp: entry_iff)
  moreover have "distinct (map ch (items q))" using assms(1) by (simp add: queue_inv_def)
  ultimately show "length (filter (\<lambda>e. ch e = c) (items q)) = 1"
    by (intro filter_key_one)
  show "\<forall>e\<in>set (items q). ch e = c \<longrightarrow> nextReap e = t"
  proof (intro ballI impI)
    fix e assume "e \<in> set (items q)" "ch e = c"
    then have "(c, nextReap e) \<in> set (entries (items q))" by (auto simp: entry_iff)
    from eq_key_imp_eq_value [OF d this assms(2)] show "nextReap e = t" .
  qed
qed

section \<open>Passes of WaitForNext and runs\<close>

lemma WaitForNext_pass_Popped:
  assumes "WaitForNext_pass q now = Popped x q'"
  shows "items q \<noteq> []" and "\<not> After (nextReap (items q ! 0)) now"
    and "heap_Pop (items q) = Some (x, items q')" and "q' = q\<lparr>items := items q'\<rparr>"
  using assms
  by (auto simp: WaitForNext_pass_def Peek_def Let_def split: if_splits option.splits)

lemma queue_inv_pop:
  assumes "queue_inv q" and "heap_Pop (items q) = Some (x, h')"
  shows "queue_inv (q\<lparr>items := h'\<rparr>)"
proof -
  have ne: "items q \<noteq> []" using assms(2) by auto
  from heap_Pop_Some [OF ne] assms(2)
  have m: "mset (entries (items q)) = add_mset (entry x) (mset (entries h'))"
    and ok: "heap_ok (items q) (length (items q)) \<longrightarrow> heap_ok h' (length h')"
    by auto
  have "mset (map ch (items q)) = image_mset fst (mset (entries (items q)))"
    by (rule mset_chans)
  also have "\<dots> = add_mset (ch x) (image_mset fst (mset (entries h')))"
    by (simp add: m entry_def)
  also have "\<dots> = add_mset (ch x) (mset (map ch h'))"
    by (simp only: mset_chans)
  finally have "mset (map ch (items q)) = mset (ch x # map ch h')" by simp
  then have "distinct (map ch (items q)) = distinct (ch x # map ch h')"
    by (rule mset_eq_imp_distinct_iff)
  then show ?thesis using assms(1) ok by (simp add: queue_inv_def)
qed

lemma queue_inv_step: "queue_inv q \<Longrightarrow> queue_inv (queue_step q op)"
proof (cases op)
  case (CallUpdate c t)
  assume "queue_inv q"
  then show ?thesis using CallUpdate by (simp add: queue_step_def queue_inv_Update)
next
  case (WaitPass now)
  assume inv: "queue_inv q"
  show ?thesis
  proof (cases "WaitForNext_pass q now")
    case (Popped x q')
    from WaitForNext_pass_Popped(3,4) [OF Popped] queue_inv_pop [OF inv]
    have "queue_inv q'" by metis
    then show ?thesis using WaitPass Popped by (simp add: queue_step_def)
  qed (use inv WaitPass in \<open>simp_all add: queue_step_def\<close>)
qed

lemma queue_inv_run: "queue_inv q \<Longrightarrow> queue_inv (queue_run q ops)"
  unfolding queue_run_def
  by (induction ops arbitrary: q) (simp_all add: queue_inv_step)

lemma items_newReapQueue [simp]: "items (newReapQueue n) = []"
  by (simp add: newReapQueue_def heap_Init_def Len_def)

lemma queue_inv_new: "queue_inv (newReapQueue n)"
  by (simp add: queue_inv_def heap_ok_def)

lemma queue_inv_reachable: "queue_inv (queue_run (newReapQueue n) ops)"
  by (rule queue_inv_run [OF queue_inv_new])

lemma foldl_Update_inv:
  "queue_inv q \<Longrightarrow> queue_inv (foldl (\<lambda>q t. Update q c t) q ts)"
  by (induction ts arbitrary: q) (simp_all add: queue_inv_Update)

lemma chan_in_Update: "c \<in> ch ` set (items (Update q c t))"
  using entry_in_Update [of c t q] by (force simp: entry_iff)

lemma foldl_Update_length:
  "c \<in> ch ` set (items q) \<Longrightarrow>
   length (items (foldl (\<lambda>q t. Update q c t) q ts)) = length (items q)"
proof (induction ts arbitrary: q)
  case Nil
  then show ?case by simp
next
  case (Cons t ts)
  have "length (items (foldl (\<lambda>q t. Update q c t) (Update q c t) ts)) =
        length (items (Update q c t))"
    by (rule Cons.IH) (rule chan_in_Update)
  then show ?case using Cons.prems by (simp add: length_items_Update)
qed

section \<open>The claims about the queue\<close>

text \<open>
  Claim C1. Take any state \<open>q\<close> that a queue reaches from \<^verbatim>\<open>newReapQueue\<close> by calls of
  \<^verbatim>\<open>Update\<close> and passes of \<^verbatim>\<open>WaitForNext\<close>, and any non-empty sequence \<open>ts\<close> of
  \<^verbatim>\<open>Update\<close> calls on one channel \<open>c\<close>. Afterwards no channel has two items, exactly
  one item has the channel \<open>c\<close>, its \<^verbatim>\<open>nextReap\<close> is the time of the last call, and the
  queue is as long as it was after the first call: the later calls overwrite the item
  in place. Every prefix of \<open>ts\<close> is such a sequence, so this holds at every point.
\<close>

theorem Update_keeps_one_entry:
  assumes "ts \<noteq> []"
  shows "let q = queue_run (newReapQueue n) ops;
             q' = foldl (\<lambda>q t. Update q c t) q ts
         in distinct (map ch (items q')) \<and>
            length (filter (\<lambda>e. ch e = c) (items q')) = 1 \<and>
            (\<forall>e\<in>set (items q'). ch e = c \<longrightarrow> nextReap e = last ts) \<and>
            length (items q') = length (items (Update q c (hd ts)))"
proof -
  define q where "q = queue_run (newReapQueue n) ops"
  define q' where "q' = foldl (\<lambda>q t. Update q c t) q ts"
  have inv: "queue_inv q" unfolding q_def by (rule queue_inv_reachable)
  obtain us u where ts: "ts = us @ [u]" using assms by (cases ts rule: rev_cases) auto
  define p where "p = foldl (\<lambda>q t. Update q c t) q us"
  have q': "q' = Update p c u" by (simp add: q'_def p_def ts)
  have invp: "queue_inv p" unfolding p_def by (rule foldl_Update_inv [OF inv])
  have inv': "queue_inv q'" unfolding q' by (rule queue_inv_Update [OF invp])
  have mem: "(c, u) \<in> set (entries (items q'))" unfolding q' by (rule entry_in_Update)
  obtain t0 ts0 where ts0: "ts = t0 # ts0" using assms by (cases ts) auto
  have l: "last ts = u" by (simp add: ts)
  have "length (items (foldl (\<lambda>q t. Update q c t) (Update q c t0) ts0)) =
        length (items (Update q c t0))"
    by (rule foldl_Update_length) (rule chan_in_Update)
  then have len: "length (items q') = length (items (Update q c (hd ts)))"
    by (simp add: q'_def ts0)
  have d: "distinct (map ch (items q'))" using inv' by (simp add: queue_inv_def)
  have one: "length (filter (\<lambda>e. ch e = c) (items q')) = 1"
    by (rule queue_inv_unique(1) [OF inv' mem])
  have due: "\<forall>e\<in>set (items q'). ch e = c \<longrightarrow> nextReap e = last ts"
    unfolding l by (rule queue_inv_unique(2) [OF inv' mem])
  show ?thesis
    unfolding Let_def q_def [symmetric] q'_def [symmetric]
    using d one due len by blast
qed

theorem Update_keeps_one_entry_witness:
  "[20, 40 :: Time] \<noteq> [] \<and>
   entries (items (foldl (\<lambda>q t. Update q 7 t)
     (queue_run (newReapQueue 2) [CallUpdate (7 :: nat) 50, CallUpdate 8 30]) [20, 40]))
     = [(8, 30), (7, 40)] \<and>
   distinct (map ch (items (foldl (\<lambda>q t. Update q 7 t)
     (queue_run (newReapQueue 2) [CallUpdate (7 :: nat) 50, CallUpdate 8 30]) [20, 40]))) \<and>
   length (filter (\<lambda>e. ch e = 7) (items (foldl (\<lambda>q t. Update q 7 t)
     (queue_run (newReapQueue 2) [CallUpdate (7 :: nat) 50, CallUpdate 8 30]) [20, 40]))) = 1"
proof -
  have ne: "[20, 40 :: Time] \<noteq> []" by simp
  have v: "entries (items (foldl (\<lambda>q t. Update q 7 t)
     (queue_run (newReapQueue 2) [CallUpdate (7 :: nat) 50, CallUpdate 8 30]) [20, 40]))
     = [(8, 30), (7, 40)]"
    by code_simp
  from Update_keeps_one_entry [OF ne, of 2 "[CallUpdate (7 :: nat) 50, CallUpdate 8 30]" 7]
  have "distinct (map ch (items (foldl (\<lambda>q t. Update q 7 t)
          (queue_run (newReapQueue 2) [CallUpdate (7 :: nat) 50, CallUpdate 8 30]) [20, 40]))) \<and>
        length (filter (\<lambda>e. ch e = 7) (items (foldl (\<lambda>q t. Update q 7 t)
          (queue_run (newReapQueue 2) [CallUpdate (7 :: nat) 50, CallUpdate 8 30]) [20, 40]))) = 1"
    unfolding Let_def by blast
  with ne v show ?thesis by blast
qed

lemma WaitForNext_run_Some:
  "WaitForNext_run q rounds = Some (it, now, q') \<Longrightarrow>
   \<exists>q0. now \<in> fst ` set rounds \<and> WaitForNext_pass q0 now = Popped it q'"
proof (induction rounds arbitrary: q)
  case Nil
  then show ?case by simp
next
  case (Cons r rounds)
  obtain t us where r: "r = (t, us)" by (cases r)
  show ?case
  proof (cases "WaitForNext_pass q t")
    case (Popped x q1)
    then show ?thesis using Cons.prems r by auto
  next
    case WaitInsertion
    then have "WaitForNext_run (apply_updates q us) rounds = Some (it, now, q')"
      using Cons.prems r by simp
    from Cons.IH [OF this] show ?thesis by auto
  next
    case (SleepFor d)
    then have "WaitForNext_run (apply_updates q us) rounds = Some (it, now, q')"
      using Cons.prems r by simp
    from Cons.IH [OF this] show ?thesis by auto
  next
    case Panicked
    then show ?thesis using Cons.prems r by simp
  qed
qed

lemma popped_is_root:
  assumes "WaitForNext_pass q now = Popped x q'"
  shows "entry x = entry (items q ! 0)" and "nextReap x \<le> now"
proof -
  note p = WaitForNext_pass_Popped [OF assms]
  from heap_Pop_Some [OF p(1)] p(3) show e: "entry x = entry (items q ! 0)" by auto
  then have "nextReap x = nextReap (items q ! 0)" by (simp add: entry_def)
  then show "nextReap x \<le> now" using p(2) by (simp add: After_def)
qed

lemma WaitForNext_returns_when_due:
  assumes "items q \<noteq> []" and "nextReap (items q ! 0) \<le> now"
  shows "\<exists>x q'. WaitForNext q ((now, us) # rounds) = Some (ch x, q') \<and>
           WaitForNext_pass q now = Popped x q'"
proof -
  from heap_Pop_Some [OF assms(1)] obtain x h' where "heap_Pop (items q) = Some (x, h')"
    by blast
  then have "WaitForNext_pass q now = Popped x (q\<lparr>items := h'\<rparr>)"
    using assms by (simp add: WaitForNext_pass_def Peek_def After_def)
  then show ?thesis by (auto simp: WaitForNext_def)
qed

text \<open>
  Claim C2. Whenever \<^verbatim>\<open>WaitForNext\<close> returns a channel \<open>c\<close>, it is the channel of an
  item popped in a pass whose clock reading \<open>now\<close> is one of the schedule; the item is the
  root that the pass tested, the branch \<^verbatim>\<open>it.nextReap.After(now)\<close> was false for it,
  and so its \<^verbatim>\<open>nextReap\<close> is not after \<open>now\<close>. No guard interval is needed.
\<close>

theorem WaitForNext_not_early:
  assumes "WaitForNext q rounds = Some (c, q')"
  shows "\<exists>it now q0. WaitForNext_run q rounds = Some (it, now, q') \<and> ch it = c \<and>
           now \<in> fst ` set rounds \<and> WaitForNext_pass q0 now = Popped it q' \<and>
           entry it = entry (items q0 ! 0) \<and>
           \<not> After (nextReap it) now \<and> nextReap it \<le> now"
proof -
  from assms obtain it now where
    run: "WaitForNext_run q rounds = Some (it, now, q')" and c: "ch it = c"
    by (auto simp: WaitForNext_def split: option.splits)
  from WaitForNext_run_Some [OF run] obtain q0 where
    q0: "now \<in> fst ` set rounds" "WaitForNext_pass q0 now = Popped it q'"
    by auto
  from popped_is_root [OF q0(2)] run c q0 show ?thesis
    by (auto simp: After_def)
qed

theorem WaitForNext_not_early_witness:
  "let q = queue_run (newReapQueue 1) [CallUpdate (1::nat) 100];
       rounds = [(50, []), (70, [(1, 60)]), (80, [])]
   in WaitForNext q rounds \<noteq> None \<and>
      (\<exists>c q' it now. WaitForNext q rounds = Some (c, q') \<and>
         WaitForNext_run q rounds = Some (it, now, q') \<and> ch it = c \<and>
         now \<in> fst ` set rounds \<and> nextReap it \<le> now)"
proof -
  let ?q = "queue_run (newReapQueue 1) [CallUpdate (1::nat) 100]"
  let ?rounds = "[(50, []), (70, [(1::nat, 60)]), (80, [])]"
  have ne: "WaitForNext ?q ?rounds \<noteq> None" by code_simp
  then obtain c q' where r: "WaitForNext ?q ?rounds = Some (c, q')" by auto
  from WaitForNext_not_early [OF r] ne r show ?thesis
    unfolding Let_def by blast
qed

lemma root_le:
  assumes "queue_inv p" and "e \<in> set (items p)"
  shows "nextReap (items p ! 0) \<le> nextReap e"
proof -
  from assms(2) obtain k where k: "k < length (items p)" "items p ! k = e"
    by (auto simp: in_set_conv_nth)
  have "heap_ok (items p) (length (items p))" using assms(1) by (simp add: queue_inv_def)
  from heap_ok_root [OF this k(1)] k(2) show ?thesis by (simp add: due_def)
qed

lemma popped_entries:
  assumes "WaitForNext_pass q now = Popped x q1"
  shows "entry x \<in> set (entries (items q))"
    and "set (entries (items q1)) \<subseteq> set (entries (items q))"
proof -
  note p = WaitForNext_pass_Popped [OF assms]
  from heap_Pop_Some [OF p(1)] p(3)
  have m: "mset (entries (items q)) = add_mset (entry x) (mset (entries (items q1)))"
    by auto
  have s: "set (entries (items q)) = insert (entry x) (set (entries (items q1)))"
    using arg_cong [OF m, of set_mset] by simp
  show "entry x \<in> set (entries (items q))" using s by simp
  show "set (entries (items q1)) \<subseteq> set (entries (items q))" using s by auto
qed

lemma popped_le_rest:
  assumes "queue_inv q" and "WaitForNext_pass q now = Popped x q1"
    and "y \<in> set (entries (items q1))"
  shows "nextReap x \<le> snd y"
proof -
  from popped_is_root(1) [OF assms(2)]
  have x0: "nextReap x = nextReap (items q ! 0)" by (simp add: entry_def)
  from assms(3) popped_entries(2) [OF assms(2)] have "y \<in> set (entries (items q))" by auto
  then obtain e where e: "e \<in> set (items q)" "snd y = nextReap e"
    by (auto simp: entries_def entry_def)
  from root_le [OF assms(1) e(1)] e(2) x0 show ?thesis by simp
qed

lemma pops_subset:
  "set (queue_pops q (map WaitPass nows)) \<subseteq> set (entries (items q))"
proof (induction nows arbitrary: q)
  case Nil
  then show ?case by simp
next
  case (Cons now nows)
  show ?case
  proof (cases "WaitForNext_pass q now")
    case (Popped x q1)
    from popped_entries [OF Popped] Cons.IH [of q1] show ?thesis
      using Popped by auto
  qed (use Cons.IH [of q] in simp_all)
qed

lemma pops_sorted:
  "queue_inv q \<Longrightarrow> sorted (map snd (queue_pops q (map WaitPass nows)))"
proof (induction nows arbitrary: q)
  case Nil
  then show ?case by simp
next
  case (Cons now nows)
  show ?case
  proof (cases "WaitForNext_pass q now")
    case (Popped x q1)
    note p = WaitForNext_pass_Popped [OF Popped]
    have inv1: "queue_inv q1" using queue_inv_pop [OF Cons.prems p(3)] p(4) by simp
    have "nextReap x \<le> snd y" if "y \<in> set (queue_pops q1 (map WaitPass nows))" for y
    proof -
      from that pops_subset [of q1 nows] have "y \<in> set (entries (items q1))" by blast
      then show ?thesis by (rule popped_le_rest [OF Cons.prems Popped])
    qed
    then show ?thesis
      using Popped Cons.IH [OF inv1] by (auto simp: entry_def)
  qed (use Cons in simp_all)
qed

text \<open>
  Claim C8, as stated, fails where an \<^verbatim>\<open>Update\<close> comes between two pops: the first pass
  pops channel \<open>9\<close>, due at \<open>40\<close>; then channel \<open>6\<close> is put in, due at \<open>10\<close>, and the next
  pass pops it. The due times of the successive pops decrease.
\<close>

theorem update_between_pops_counterexample:
  "queue_pops (newReapQueue 2)
     [CallUpdate (7 :: nat) 50, CallUpdate 8 30, CallUpdate 9 40, CallUpdate 8 60,
      WaitPass 45, CallUpdate 6 10, WaitPass 45]
     = [(9, 40), (6, 10)] \<and>
   \<not> sorted (map snd (queue_pops (newReapQueue 2)
     [CallUpdate (7 :: nat) 50, CallUpdate 8 30, CallUpdate 9 40, CallUpdate 8 60,
      WaitPass 45, CallUpdate 6 10, WaitPass 45]))"
  by code_simp

text \<open>
  Claim C8, amended. In every state that a queue reaches from \<^verbatim>\<open>newReapQueue\<close> by calls
  of \<^verbatim>\<open>Update\<close> and passes of \<^verbatim>\<open>WaitForNext\<close>, no item is due before the item at
  index \<open>0\<close>. A pass that pops returns that root, none of the items left is due before
  it, and a pop that follows with no \<^verbatim>\<open>Update\<close> in between returns an item that is not
  due before it: over any number of passes with no \<^verbatim>\<open>Update\<close> among them, the due
  times of the popped entries do not decrease.
\<close>

theorem heap_root_is_earliest:
  "let q = queue_run (newReapQueue n) ops in
     (\<forall>e\<in>set (items q). nextReap (items q ! 0) \<le> nextReap e) \<and>
     (\<forall>now x q1. WaitForNext_pass q now = Popped x q1 \<longrightarrow>
        entry x = entry (items q ! 0) \<and>
        (\<forall>e\<in>set (items q1). nextReap x \<le> nextReap e) \<and>
        (\<forall>now' y q2. WaitForNext_pass q1 now' = Popped y q2 \<longrightarrow> nextReap x \<le> nextReap y)) \<and>
     (\<forall>nows. sorted (map snd (queue_pops q (map WaitPass nows))))"
proof -
  define q where "q = queue_run (newReapQueue n) ops"
  have inv: "queue_inv q" unfolding q_def by (rule queue_inv_reachable)
  have pop: "entry x = entry (items q ! 0) \<and>
        (\<forall>e\<in>set (items q1). nextReap x \<le> nextReap e) \<and>
        (\<forall>now' y q2. WaitForNext_pass q1 now' = Popped y q2 \<longrightarrow> nextReap x \<le> nextReap y)"
    if px: "WaitForNext_pass q now = Popped x q1" for now x q1
  proof -
    have ex: "entry x = entry (items q ! 0)" by (rule popped_is_root(1) [OF px])
    have rest: "nextReap x \<le> nextReap e" if e: "e \<in> set (items q1)" for e
    proof -
      have "entry e \<in> set (entries (items q1))" using e by (simp add: entries_def)
      from popped_le_rest [OF inv px this] show ?thesis by (simp add: entry_def)
    qed
    have next_pop: "nextReap x \<le> nextReap y" if py: "WaitForNext_pass q1 now' = Popped y q2"
      for now' y q2
    proof -
      note p1 = WaitForNext_pass_Popped [OF py]
      have "nextReap y = nextReap (items q1 ! 0)"
        using popped_is_root(1) [OF py] by (simp add: entry_def)
      moreover have "items q1 ! 0 \<in> set (items q1)" using p1(1) by simp
      ultimately show ?thesis using rest by simp
    qed
    show ?thesis using ex rest next_pop by blast
  qed
  show ?thesis
    unfolding Let_def q_def [symmetric]
    using root_le [OF inv] pop pops_sorted [OF inv] by blast
qed

theorem heap_root_is_earliest_witness:
  "entries (items (queue_run (newReapQueue 2)
      [CallUpdate (7 :: nat) 50, CallUpdate 8 30, CallUpdate 9 40, CallUpdate 8 60,
       WaitPass 45, CallUpdate 6 10]))
     = [(6, 10), (8, 60), (7, 50)] \<and>
   (\<exists>e. e \<in> set (items (queue_run (newReapQueue 2)
      [CallUpdate (7 :: nat) 50, CallUpdate 8 30, CallUpdate 9 40, CallUpdate 8 60,
       WaitPass 45, CallUpdate 6 10])) \<and> ch e = 8 \<and>
      nextReap (items (queue_run (newReapQueue 2)
      [CallUpdate (7 :: nat) 50, CallUpdate 8 30, CallUpdate 9 40, CallUpdate 8 60,
       WaitPass 45, CallUpdate 6 10]) ! 0) \<le> nextReap e) \<and>
   (\<exists>x q1 y q2.
      WaitForNext_pass (queue_run (newReapQueue 2)
        [CallUpdate (7 :: nat) 50, CallUpdate 8 30, CallUpdate 9 40, CallUpdate 8 60,
         WaitPass 45, CallUpdate 6 10]) 70 = Popped x q1 \<and>
      WaitForNext_pass q1 70 = Popped y q2 \<and> nextReap x \<le> nextReap y) \<and>
   queue_pops (queue_run (newReapQueue 2)
      [CallUpdate (7 :: nat) 50, CallUpdate 8 30, CallUpdate 9 40, CallUpdate 8 60,
       WaitPass 45, CallUpdate 6 10]) (map WaitPass [20, 70, 70, 70])
     = [(6, 10), (7, 50), (8, 60)] \<and>
   sorted (map snd (queue_pops (queue_run (newReapQueue 2)
      [CallUpdate (7 :: nat) 50, CallUpdate 8 30, CallUpdate 9 40, CallUpdate 8 60,
       WaitPass 45, CallUpdate 6 10]) (map WaitPass [20, 70, 70, 70])))"
proof -
  let ?q = "queue_run (newReapQueue 2)
      [CallUpdate (7 :: nat) 50, CallUpdate 8 30, CallUpdate 9 40, CallUpdate 8 60,
       WaitPass 45, CallUpdate 6 10]"
  have v: "entries (items ?q) = [(6, 10), (8, 60), (7, 50)]" by code_simp
  have pv: "queue_pops ?q (map WaitPass [20, 70, 70, 70]) = [(6, 10), (7, 50), (8, 60)]"
    by code_simp
  have "\<exists>e\<in>set (items ?q). ch e = 8" by code_simp
  then obtain e where e: "e \<in> set (items ?q)" "ch e = 8" by blast
  have "case WaitForNext_pass ?q 70 of
          Popped x q1 \<Rightarrow> (case WaitForNext_pass q1 70 of Popped y q2 \<Rightarrow> True | _ \<Rightarrow> False)
        | _ \<Rightarrow> False"
    by code_simp
  then obtain x q1 y q2 where
    p: "WaitForNext_pass ?q 70 = Popped x q1" "WaitForNext_pass q1 70 = Popped y q2"
    by (auto split: wait_result.splits)
  note t = heap_root_is_earliest [of 2 "[CallUpdate (7 :: nat) 50, CallUpdate 8 30,
      CallUpdate 9 40, CallUpdate 8 60, WaitPass 45, CallUpdate 6 10]", unfolded Let_def]
  from t e have "nextReap (items ?q ! 0) \<le> nextReap e" by blast
  moreover from t p have "nextReap x \<le> nextReap y" by blast
  moreover from t have "sorted (map snd (queue_pops ?q (map WaitPass [20, 70, 70, 70])))"
    by blast
  ultimately show ?thesis using v pv e p by blast
qed

section \<open>The claims about backoff, workers and the pool\<close>

subsection \<open>Scheduling entry points\<close>

lemma get_set_queue [simp]:
  "get_queue (set_queue b q v) q = v"
  "q' \<noteq> q \<Longrightarrow> get_queue (set_queue b q v) q' = get_queue b q'"
  "loadFailures (set_queue b q v) = loadFailures b"
  by (cases q; cases q'; simp add: get_queue_def set_queue_def)+

lemma QueueLoadBacklog_fields:
  "loadFailures (QueueLoadBacklog b c didFail r now) =
     (if didFail then (loadFailures b)(c := loadFailures b c * 2 + r) else loadFailures b)"
  "loadRetries (QueueLoadBacklog b c didFail r now) =
     Update (loadRetries b) c
       (Add now (if didFail then loadFailures b c * 2 + r else loadFailures b c))"
  "reaper (QueueLoadBacklog b c didFail r now) = reaper b"
  by (simp_all add: QueueLoadBacklog_def Let_def)

lemma QueueReap_fields:
  "loadFailures (QueueReap b c t) = loadFailures b"
  "loadRetries (QueueReap b c t) = loadRetries b"
  "reaper (QueueReap b c t) = Update (reaper b) c t"
  by (simp_all add: QueueReap_def)

lemma QueueLoadBacklog_frame [simp]:
  "curWork (get_queue (QueueLoadBacklog b c didFail r now) q) = curWork (get_queue b q)"
  "controlCh (get_queue (QueueLoadBacklog b c didFail r now) q) = controlCh (get_queue b q)"
  by (cases q; simp add: get_queue_def QueueLoadBacklog_fields)+

lemma QueueReap_frame [simp]:
  "curWork (get_queue (QueueReap b c t) q) = curWork (get_queue b q)"
  "controlCh (get_queue (QueueReap b c t) q) = controlCh (get_queue b q)"
  by (cases q; simp add: get_queue_def QueueReap_fields)+

lemma sint_double_plus:
  fixes x r :: Duration
  assumes "0 \<le> sint x" "0 \<le> sint r" "2 * sint x + sint r < 2 ^ 63"
  shows "sint (x * 2 + r) = 2 * sint x + sint r"
proof -
  have "sint (x * 2) = signed_take_bit 63 (sint x * 2)"
    by (simp add: sint_word_ariths)
  also have "\<dots> = sint x * 2"
    using assms by (intro signed_take_bit_int_eq_self) simp_all
  finally have d: "sint (x * 2) = 2 * sint x" by simp
  have "sint (x * 2 + r) = signed_take_bit 63 (sint (x * 2) + sint r)"
    by (simp add: sint_word_ariths)
  also have "\<dots> = 2 * sint x + sint r"
    unfolding d using assms by (intro signed_take_bit_int_eq_self) simp_all
  finally show ?thesis .
qed

text \<open>
  Claim C5, as stated, fails where the \<^verbatim>\<open>int64\<close> arithmetic wraps: from a delay of
  \<open>2 ^ 62\<close> nanoseconds and the draw \<open>0\<close> the new delay is negative, below the old one.
\<close>

theorem backoff_wraps_counterexample:
  "0 \<le> sint (loadFailures (fresh_bot 2 (2 ^ 62) :: nat Bot) 7) \<and>
   0 \<le> sint (0 :: Duration) \<and> sint (0 :: Duration) < sint (5 * Second) \<and>
   sint (loadFailures (QueueLoadBacklog (fresh_bot 2 (2 ^ 62)) (7 :: nat) True 0 0) 7)
     < sint (loadFailures (fresh_bot 2 (2 ^ 62) :: nat Bot) 7) \<and>
   sint (loadFailures (QueueLoadBacklog (fresh_bot 2 (2 ^ 62)) (7 :: nat) True 0 0) 7)
     < 2 * sint (loadFailures (fresh_bot 2 (2 ^ 62) :: nat Bot) 7)"
  by (simp add: QueueLoadBacklog_fields fresh_bot_def Second_def)

text \<open>
  Claim C5, amended: for a delay \<open>currentDelay \<ge> 0\<close> and a draw \<open>r\<close> in \<open>[0, 5s)\<close> such
  that \<open>2 * currentDelay + r\<close> fits \<^verbatim>\<open>int64\<close>, a call with \<open>didFail = True\<close> stores the
  new delay \<open>2 * currentDelay + r\<close>, which lies in \<open>[2 * currentDelay, 2 * currentDelay + 5s)\<close>
  and is not below the old one, and puts the channel into the retry queue at
  \<open>now + newDelay\<close>.
\<close>

theorem backoff_doubles_without_overflow:
  assumes "0 \<le> sint (loadFailures b c)" and "0 \<le> sint r" and "sint r < sint (5 * Second)"
    and "2 * sint (loadFailures b c) + sint r < 2 ^ 63"
  shows "let b' = QueueLoadBacklog b c True r now;
             currentDelay = sint (loadFailures b c);
             newDelay = sint (loadFailures b' c)
         in newDelay = 2 * currentDelay + sint r \<and>
            2 * currentDelay \<le> newDelay \<and>
            newDelay < 2 * currentDelay + sint (5 * Second) \<and>
            currentDelay \<le> newDelay \<and>
            loadRetries b' = Update (loadRetries b) c (now + newDelay) \<and>
            (c, now + newDelay) \<in> set (entries (items (loadRetries b')))"
proof -
  have n: "sint (loadFailures b c * 2 + r) = 2 * sint (loadFailures b c) + sint r"
    by (rule sint_double_plus [OF assms(1,2,4)])
  have u: "loadRetries (QueueLoadBacklog b c True r now) =
           Update (loadRetries b) c (now + sint (loadFailures b c * 2 + r))"
    by (simp add: QueueLoadBacklog_fields Add_def)
  have m: "(c, now + sint (loadFailures b c * 2 + r))
           \<in> set (entries (items (loadRetries (QueueLoadBacklog b c True r now))))"
    unfolding u by (rule entry_in_Update)
  show ?thesis
    using assms n u m by (simp add: Let_def QueueLoadBacklog_fields(1))
qed

theorem backoff_doubles_without_overflow_witness:
  "0 \<le> sint (loadFailures (fresh_bot 2 Second :: nat Bot) 7) \<and>
   0 \<le> sint (1234 :: Duration) \<and> sint (1234 :: Duration) < sint (5 * Second) \<and>
   2 * sint (loadFailures (fresh_bot 2 Second :: nat Bot) 7) + sint (1234 :: Duration) < 2 ^ 63 \<and>
   sint (loadFailures (QueueLoadBacklog (fresh_bot 2 Second) (7 :: nat) True 1234 70) 7)
     = 2000001234 \<and>
   (7, 2000001304) \<in> set (entries (items (loadRetries
       (QueueLoadBacklog (fresh_bot 2 Second) (7 :: nat) True 1234 70))))"
proof -
  have h: "0 \<le> sint (loadFailures (fresh_bot 2 Second :: nat Bot) 7)"
    "0 \<le> sint (1234 :: Duration)" "sint (1234 :: Duration) < sint (5 * Second)"
    "2 * sint (loadFailures (fresh_bot 2 Second :: nat Bot) 7) + sint (1234 :: Duration) < 2 ^ 63"
    by (simp_all add: fresh_bot_def Second_def)
  have v: "sint (loadFailures (fresh_bot 2 Second :: nat Bot) 7) = 1000000000"
    "sint (1234 :: Duration) = 1234"
    by (simp_all add: fresh_bot_def Second_def)
  from backoff_doubles_without_overflow [OF h, of 70] h show ?thesis
    by (auto simp add: Let_def v)
qed

text \<open>
  Claim C10. A call with \<open>didFail = False\<close> leaves every channel's \<^verbatim>\<open>loadFailures\<close> and
  the reap queue as they are, and puts the channel into the retry queue at \<open>now\<close> plus
  the delay accumulated so far, not at \<open>now\<close>.
\<close>

theorem QueueLoadBacklog_success_keeps_delay:
  "let b' = QueueLoadBacklog b c False r now
   in loadFailures b' = loadFailures b \<and> reaper b' = reaper b \<and>
      loadRetries b' = Update (loadRetries b) c (now + sint (loadFailures b c)) \<and>
      (c, now + sint (loadFailures b c)) \<in> set (entries (items (loadRetries b')))"
proof -
  have u: "loadRetries (QueueLoadBacklog b c False r now) =
           Update (loadRetries b) c (now + sint (loadFailures b c))"
    by (simp add: QueueLoadBacklog_fields Add_def)
  have "(c, now + sint (loadFailures b c))
        \<in> set (entries (items (loadRetries (QueueLoadBacklog b c False r now))))"
    unfolding u by (rule entry_in_Update)
  then show ?thesis using u by (simp add: Let_def QueueLoadBacklog_fields)
qed

theorem QueueLoadBacklog_success_keeps_delay_witness:
  "loadFailures (QueueLoadBacklog (fresh_bot 2 (3 * Second)) (7 :: nat) False 0 70) 7 = 3 * Second \<and>
   (7, 3000000070) \<in> set (entries (items (loadRetries
       (QueueLoadBacklog (fresh_bot 2 (3 * Second)) (7 :: nat) False 0 70))))"
proof -
  from QueueLoadBacklog_success_keeps_delay [of "fresh_bot 2 (3 * Second)" "7 :: nat" 0 70]
  show ?thesis by (auto simp add: Let_def fresh_bot_def Second_def)
qed

subsection \<open>Workers\<close>

lemma reapWorker_turn_done:
  assumes "\<not> collect_isDisabled x" and "\<not> handleCriticalPermissionsErrors x"
  shows "reapWorker_turn b q mayTimeout (WorkCh work x) =
    (let b1 = set_queue b q ((get_queue b q)\<lparr>curWork := curWork (get_queue b q) - {work_ch work}\<rparr>);
         b2 = QueueReap b1 (work_ch work) (GetNextDeletionTime x)
     in if collect_shouldQueueBacklog x \<or> Reap_err x \<noteq> None
        then QueueLoadBacklog b2 (work_ch work) True (Intn x) (Now x) else b2, Running)"
  using assms by (auto simp: reapWorker_turn_def Let_def)

lemma reapWorker_turn_dropped:
  "collect_isDisabled x \<or> handleCriticalPermissionsErrors x \<Longrightarrow>
   reapWorker_turn b q mayTimeout (WorkCh work x) = (b, Running)"
  by (auto simp: reapWorker_turn_def Let_def)

lemma loadWorker_turn_done:
  "\<not> IsDisabled x \<Longrightarrow>
   loadWorker_turn b q mayTimeout (WorkCh work x) =
    (let b1 = set_queue b q ((get_queue b q)\<lparr>curWork := curWork (get_queue b q) - {work_ch work}\<rparr>)
     in if isRetryableLoadError (LoadBacklog x)
        then QueueLoadBacklog b1 (work_ch work) True (Intn x) (Now x) else b1, Running)"
  by (simp add: loadWorker_turn_def Let_def)

lemma loadWorker_turn_dropped:
  "IsDisabled x \<Longrightarrow> loadWorker_turn b q mayTimeout (WorkCh work x) = (b, Running)"
  by (simp add: loadWorker_turn_def Let_def)

text \<open>
  Claim C6, as stated, fails on the discard paths: a reap worker that finds the channel
  disabled, or whose critical permission error is handled, and a load worker that finds
  the channel disabled, all leave the channel in \<^verbatim>\<open>curWork\<close>.
\<close>

theorem dropped_item_stays_in_flight_counterexample:
  "7 \<in> curWork (get_queue (fst (reapWorker_turn (in_flight_bot 2 0 Reaper (7 :: nat)) Reaper False
          (WorkCh \<lparr>work_ch = 7, work_msgs = []\<rparr> (plain_ext\<lparr>collect_isDisabled := True\<rparr>))))
        Reaper) \<and>
   7 \<in> curWork (get_queue (fst (reapWorker_turn (in_flight_bot 2 0 Reaper (7 :: nat)) Reaper False
          (WorkCh \<lparr>work_ch = 7, work_msgs = []\<rparr>
             (plain_ext\<lparr>Reap_err := Some ''Missing Permissions'',
                         handleCriticalPermissionsErrors := True\<rparr>))))
        Reaper) \<and>
   7 \<in> curWork (get_queue (fst (loadWorker_turn (in_flight_bot 2 0 LoadRetries (7 :: nat)) LoadRetries True
          (WorkCh \<lparr>work_ch = 7, work_msgs = []\<rparr> (plain_ext\<lparr>IsDisabled := True\<rparr>))))
        LoadRetries)"
  by code_simp

text \<open>
  Claim C6, amended: a worker that finishes a work item removes its channel from
  \<^verbatim>\<open>curWork\<close> within that turn of its loop: the load worker when the channel is not
  disabled, the reap worker when the channel is not disabled and no critical permission
  error is handled. On the discard paths the worker changes nothing, \<^verbatim>\<open>curWork\<close>
  included, and goes on to the next item.
\<close>

theorem workers_clear_in_flight_unless_dropped:
  "let c = work_ch work;
       load = loadWorker_turn b q mayTimeout (WorkCh work x);
       reap = reapWorker_turn b q mayTimeout (WorkCh work x)
   in (\<not> IsDisabled x \<longrightarrow> c \<notin> curWork (get_queue (fst load) q)) \<and>
      (IsDisabled x \<longrightarrow> fst load = b) \<and>
      (\<not> collect_isDisabled x \<and> \<not> handleCriticalPermissionsErrors x \<longrightarrow>
         c \<notin> curWork (get_queue (fst reap) q)) \<and>
      (collect_isDisabled x \<or> handleCriticalPermissionsErrors x \<longrightarrow> fst reap = b) \<and>
      snd load = Running \<and> snd reap = Running"
proof -
  have l1: "work_ch work \<notin> curWork (get_queue (fst (loadWorker_turn b q mayTimeout (WorkCh work x))) q)"
    if "\<not> IsDisabled x"
    by (simp add: loadWorker_turn_done [OF that] Let_def)
  have l2: "loadWorker_turn b q mayTimeout (WorkCh work x) = (b, Running)" if "IsDisabled x"
    by (rule loadWorker_turn_dropped [OF that])
  have r1: "work_ch work \<notin> curWork (get_queue (fst (reapWorker_turn b q mayTimeout (WorkCh work x))) q)"
    if "\<not> collect_isDisabled x" "\<not> handleCriticalPermissionsErrors x"
    by (simp add: reapWorker_turn_done [OF that] Let_def)
  have r2: "reapWorker_turn b q mayTimeout (WorkCh work x) = (b, Running)"
    if "collect_isDisabled x \<or> handleCriticalPermissionsErrors x"
    by (rule reapWorker_turn_dropped [OF that])
  have s1: "snd (loadWorker_turn b q mayTimeout (WorkCh work x)) = Running"
    by (cases "IsDisabled x") (simp_all add: loadWorker_turn_done loadWorker_turn_dropped Let_def)
  have s2: "snd (reapWorker_turn b q mayTimeout (WorkCh work x)) = Running"
    by (cases "collect_isDisabled x \<or> handleCriticalPermissionsErrors x")
      (simp_all add: reapWorker_turn_done reapWorker_turn_dropped Let_def)
  show ?thesis
    unfolding Let_def using l1 l2 r1 r2 s1 s2 by auto
qed

theorem workers_clear_in_flight_unless_dropped_witness:
  "7 \<in> curWork (get_queue (in_flight_bot 2 0 Reaper (7 :: nat)) Reaper) \<and>
   \<not> IsDisabled plain_ext \<and> \<not> collect_isDisabled plain_ext \<and>
   \<not> handleCriticalPermissionsErrors plain_ext \<and>
   7 \<notin> curWork (get_queue (fst (loadWorker_turn (in_flight_bot 2 0 Reaper (7 :: nat)) Reaper True
          (WorkCh \<lparr>work_ch = 7, work_msgs = []\<rparr> plain_ext))) Reaper) \<and>
   7 \<notin> curWork (get_queue (fst (reapWorker_turn (in_flight_bot 2 0 Reaper (7 :: nat)) Reaper True
          (WorkCh \<lparr>work_ch = 7, work_msgs = []\<rparr> plain_ext))) Reaper)"
proof -
  have h: "7 \<in> curWork (get_queue (in_flight_bot 2 0 Reaper (7 :: nat)) Reaper)"
    "\<not> IsDisabled plain_ext" "\<not> collect_isDisabled plain_ext"
    "\<not> handleCriticalPermissionsErrors plain_ext"
    by code_simp+
  from workers_clear_in_flight_unless_dropped
    [where work = "\<lparr>work_ch = 7 :: nat, work_msgs = []\<rparr>"
      and b = "in_flight_bot 2 0 Reaper 7" and q = Reaper and mayTimeout = True and x = plain_ext] h
  show ?thesis by (simp add: Let_def)
qed

text \<open>
  Claim C7, as stated, fails: with a load delay of one second accumulated and the refresh
  flag set, the reap worker puts the channel into the retry queue two seconds after
  \<open>now = 1000\<close>, not at \<open>now\<close>.
\<close>

theorem refresh_is_delayed_counterexample:
  "\<not> collect_isDisabled (plain_ext\<lparr>collect_shouldQueueBacklog := True, Now := 1000\<rparr>) \<and>
   \<not> handleCriticalPermissionsErrors (plain_ext\<lparr>collect_shouldQueueBacklog := True, Now := 1000\<rparr>) \<and>
   collect_shouldQueueBacklog (plain_ext\<lparr>collect_shouldQueueBacklog := True, Now := 1000\<rparr>) \<and>
   Now (plain_ext\<lparr>collect_shouldQueueBacklog := True, Now := 1000\<rparr>) = 1000 \<and>
   loadFailures (in_flight_bot 2 Second Reaper (7 :: nat)) 7 = Second \<and>
   entries (items (loadRetries (fst (reapWorker_turn (in_flight_bot 2 Second Reaper (7 :: nat)) Reaper False
      (WorkCh \<lparr>work_ch = 7, work_msgs = []\<rparr>
         (plain_ext\<lparr>collect_shouldQueueBacklog := True, Now := 1000\<rparr>))))))
     = [(7, 2000001000)]"
  by code_simp

text \<open>
  Claim C7, amended: whenever the reap worker finishes a work item that is not dropped
  and the refresh flag is set, by \<^verbatim>\<open>collectMessagesToDelete\<close> or by an error of
  \<^verbatim>\<open>Reap\<close>, it calls \<^verbatim>\<open>QueueLoadBacklog\<close> with \<open>didFail = True\<close>: the channel's load
  delay becomes \<open>2 * currentDelay + r\<close> in \<^verbatim>\<open>int64\<close>, and the channel is put into the
  retry queue at \<open>now\<close> plus that new delay; when the retry queue has one item per
  channel, no item of the channel has another due time.
\<close>

theorem reapWorker_refresh_adds_delay:
  assumes "\<not> collect_isDisabled x" and "\<not> handleCriticalPermissionsErrors x"
    and "collect_shouldQueueBacklog x \<or> Reap_err x \<noteq> None"
  shows "let b' = fst (reapWorker_turn b q mayTimeout (WorkCh work x));
             c = work_ch work;
             newDelay = loadFailures b c * 2 + Intn x
         in loadFailures b' c = newDelay \<and>
            (c, Now x + sint newDelay) \<in> set (entries (items (loadRetries b'))) \<and>
            (queue_inv (loadRetries b) \<longrightarrow>
               (\<forall>e\<in>set (items (loadRetries b')). ch e = c \<longrightarrow> nextReap e = Now x + sint newDelay))"
proof -
  define c where "c = work_ch work"
  define b1 where
    "b1 = set_queue b q ((get_queue b q)\<lparr>curWork := curWork (get_queue b q) - {c}\<rparr>)"
  define b2 where "b2 = QueueReap b1 c (GetNextDeletionTime x)"
  define b' where "b' = QueueLoadBacklog b2 c True (Intn x) (Now x)"
  define d where "d = loadFailures b c * 2 + Intn x"
  have turn: "fst (reapWorker_turn b q mayTimeout (WorkCh work x)) = b'"
    using assms(3)
    by (simp add: reapWorker_turn_done [OF assms(1,2)] Let_def b'_def b2_def b1_def c_def)
  have lf: "loadFailures b2 = loadFailures b"
    by (simp add: b2_def b1_def QueueReap_fields)
  have it: "items (loadRetries b2) = items (loadRetries b)"
    by (cases q) (simp_all add: b2_def b1_def QueueReap_fields set_queue_def get_queue_def)
  have lr: "loadRetries b' = Update (loadRetries b2) c (Now x + sint d)"
    by (simp add: b'_def QueueLoadBacklog_fields lf d_def Add_def)
  have new: "loadFailures b' c = d"
    by (simp add: b'_def QueueLoadBacklog_fields lf d_def)
  have mem: "(c, Now x + sint d) \<in> set (entries (items (loadRetries b')))"
    unfolding lr by (rule entry_in_Update)
  have only: "\<forall>e\<in>set (items (loadRetries b')). ch e = c \<longrightarrow> nextReap e = Now x + sint d"
    if inv: "queue_inv (loadRetries b)"
  proof -
    have "queue_inv (loadRetries b2)" using inv it by (simp add: queue_inv_def)
    then have "queue_inv (loadRetries b')" unfolding lr by (rule queue_inv_Update)
    from queue_inv_unique(2) [OF this mem] show ?thesis .
  qed
  show ?thesis
    unfolding Let_def turn c_def [symmetric] d_def [symmetric]
    using new mem only by blast
qed

theorem reapWorker_refresh_adds_delay_witness:
  "\<not> collect_isDisabled (plain_ext\<lparr>Reap_err := Some ''503'', Intn := 25, Now := 1000\<rparr>) \<and>
   \<not> handleCriticalPermissionsErrors (plain_ext\<lparr>Reap_err := Some ''503'', Intn := 25, Now := 1000\<rparr>) \<and>
   Reap_err (plain_ext\<lparr>Reap_err := Some ''503'', Intn := 25, Now := 1000\<rparr>) \<noteq> None \<and>
   loadFailures (fst (reapWorker_turn (in_flight_bot 2 Second Reaper (7 :: nat)) Reaper False
      (WorkCh \<lparr>work_ch = 7, work_msgs = []\<rparr>
         (plain_ext\<lparr>Reap_err := Some ''503'', Intn := 25, Now := 1000\<rparr>)))) 7 = 2000000025 \<and>
   (7, 2000001025) \<in> set (entries (items (loadRetries (fst (reapWorker_turn
      (in_flight_bot 2 Second Reaper (7 :: nat)) Reaper False
      (WorkCh \<lparr>work_ch = 7, work_msgs = []\<rparr>
         (plain_ext\<lparr>Reap_err := Some ''503'', Intn := 25, Now := 1000\<rparr>)))))))"
proof -
  let ?x = "plain_ext\<lparr>Reap_err := Some ''503'', Intn := 25, Now := 1000\<rparr>"
  have h: "\<not> collect_isDisabled ?x" "\<not> handleCriticalPermissionsErrors ?x"
    "collect_shouldQueueBacklog ?x \<or> Reap_err ?x \<noteq> None"
    by (simp_all add: plain_ext_def)
  have v: "loadFailures (in_flight_bot 2 Second Reaper (7 :: nat)) 7 = 1000000000"
    "Intn ?x = 25" "Now ?x = 1000"
    by (simp_all add: in_flight_bot_def fresh_bot_def Second_def plain_ext_def)
  from reapWorker_refresh_adds_delay
    [OF h, where b = "in_flight_bot 2 Second Reaper 7"
      and work = "\<lparr>work_ch = 7 :: nat, work_msgs = []\<rparr>" and q = Reaper and mayTimeout = False]
  show ?thesis
    using h by (auto simp add: Let_def v)
qed

text \<open>
  Claim C9 holds for \<^verbatim>\<open>loadWorker\<close> and fails for \<^verbatim>\<open>reapWorker\<close>. A load worker
  started with \<open>mayTimeout\<close> returns when its timer fires and its deferred function takes
  a token back.
\<close>

lemma loadWorker_transient_exits:
  assumes "chan_recv (controlCh (get_queue b q)) = Some tokens"
  shows "loadWorker b q True (IdleTimeout # evs) =
           (set_queue b q ((get_queue b q)\<lparr>controlCh := tokens\<rparr>), Exited)"
  using assms by (simp add: loadWorker_def loadWorker_turn_def)

text \<open>
  Claim C9 at \<^verbatim>\<open>reapWorker\<close>: however many idle timeouts pass with no item, a reap
  worker is still running, whatever \<open>mayTimeout\<close> it was started with, and the bot, the
  tokens of \<^verbatim>\<open>controlCh\<close> included, is unchanged.
\<close>

theorem reapWorker_never_times_out:
  "reapWorker b q mayTimeout (replicate k IdleTimeout) = (b, Running)"
proof -
  have idle: "reapWorker_turn b q mayTimeout IdleTimeout = (b, Running)"
    by (simp add: reapWorker_turn_def)
  have "worker_loop reapWorker_turn b q mayTimeout (replicate k IdleTimeout) = (b, Running)"
    by (induction k) (simp_all add: idle)
  then show ?thesis by (simp only: reapWorker_def)
qed

subsection \<open>The in-flight set\<close>

lemma body_in_flight: "c \<in> curWork q \<Longrightarrow> reapScheduler_body q c = (q, None)"
  by (simp add: reapScheduler_body_def Let_def)

lemma body_not_in_flight:
  "c \<notin> curWork q \<Longrightarrow>
   reapScheduler_body q c =
     (q\<lparr>curWork := insert c (curWork q)\<rparr>, Some \<lparr>work_ch = c, work_msgs = []\<rparr>)"
  by (simp add: reapScheduler_body_def Let_def)

lemma flight_run_Popped:
  "flight_run q (SchedulerPopped d # evs) =
     (if d \<in> curWork q then flight_run q evs
      else (fst (flight_run (q\<lparr>curWork := insert d (curWork q)\<rparr>) evs),
            \<lparr>work_ch = d, work_msgs = []\<rparr> # snd (flight_run (q\<lparr>curWork := insert d (curWork q)\<rparr>) evs)))"
  by (simp add: body_in_flight body_not_in_flight split: prod.splits)

text \<open>
  Claim C3. When the dispatch loop pops a channel that is in \<^verbatim>\<open>curWork\<close>, the queue is
  left as it is and no work item is made. Over any run of pops by the dispatch loop and
  deletions by workers in which no worker deletes \<open>c\<close>, a channel \<open>c\<close> that is in
  \<^verbatim>\<open>curWork\<close> stays there and is in none of the work items handed to \<^verbatim>\<open>sendWorkItem\<close>.
\<close>

theorem in_flight_not_dispatched_again:
  assumes "c \<in> curWork q" and "WorkerDeleted c \<notin> set evs"
  shows "reapScheduler_body q c = (q, None) \<and>
         c \<in> curWork (fst (flight_run q evs)) \<and>
         c \<notin> work_ch ` set (snd (flight_run q evs))"
proof -
  have "c \<in> curWork (fst (flight_run q evs)) \<and> c \<notin> work_ch ` set (snd (flight_run q evs))"
    using assms
  proof (induction evs arbitrary: q)
    case Nil
    then show ?case by simp
  next
    case (Cons ev evs)
    have rest: "WorkerDeleted c \<notin> set evs" using Cons.prems(2) by simp
    show ?case
    proof (cases ev)
      case (SchedulerPopped d)
      show ?thesis
      proof (cases "d \<in> curWork q")
        case True
        then show ?thesis
          using Cons.IH [OF Cons.prems(1) rest] SchedulerPopped
          by (simp add: flight_run_Popped del: flight_run.simps(2))
      next
        case False
        then have dc: "d \<noteq> c" using Cons.prems(1) by auto
        have "c \<in> curWork (q\<lparr>curWork := insert d (curWork q)\<rparr>)" using Cons.prems(1) by simp
        from Cons.IH [OF this rest] show ?thesis
          using SchedulerPopped False dc
          by (simp add: flight_run_Popped del: flight_run.simps(2))
      qed
    next
      case (WorkerDeleted d)
      then have "d \<noteq> c" using Cons.prems(2) by auto
      then have "c \<in> curWork (q\<lparr>curWork := curWork q - {d}\<rparr>)" using Cons.prems(1) by simp
      from Cons.IH [OF this rest] show ?thesis using WorkerDeleted by simp
    qed
  qed
  then show ?thesis using body_in_flight [OF assms(1)] by simp
qed

theorem in_flight_not_dispatched_again_witness:
  "7 \<in> curWork (fst (reapScheduler_body (newReapQueue 2) (7 :: nat))) \<and>
   WorkerDeleted 7 \<notin> set [SchedulerPopped 7, SchedulerPopped 8, WorkerDeleted 8,
                           SchedulerPopped 8, SchedulerPopped (7 :: nat)] \<and>
   map work_ch (snd (flight_run (fst (reapScheduler_body (newReapQueue 2) (7 :: nat)))
     [SchedulerPopped 7, SchedulerPopped 8, WorkerDeleted 8, SchedulerPopped 8, SchedulerPopped 7]))
     = [8, 8] \<and>
   7 \<notin> work_ch ` set (snd (flight_run (fst (reapScheduler_body (newReapQueue 2) (7 :: nat)))
     [SchedulerPopped 7, SchedulerPopped 8, WorkerDeleted 8, SchedulerPopped 8, SchedulerPopped 7]))"
proof -
  have h: "7 \<in> curWork (fst (reapScheduler_body (newReapQueue 2) (7 :: nat)))"
    "WorkerDeleted 7 \<notin> set [SchedulerPopped 7, SchedulerPopped 8, WorkerDeleted 8,
                           SchedulerPopped 8, SchedulerPopped (7 :: nat)]"
    by code_simp+
  have v: "map work_ch (snd (flight_run (fst (reapScheduler_body (newReapQueue 2) (7 :: nat)))
     [SchedulerPopped 7, SchedulerPopped 8, WorkerDeleted 8, SchedulerPopped 8, SchedulerPopped 7]))
     = [8, 8]"
    by code_simp
  from in_flight_not_dispatched_again [OF h] h v show ?thesis by blast
qed

subsection \<open>The worker pool\<close>

lemma turn_tokens:
  assumes "turn = loadWorker_turn \<or> turn = reapWorker_turn"
    and "turn b q m wev = (b', st)"
  shows "chan_cap (controlCh (get_queue b' q)) = chan_cap (controlCh (get_queue b q))"
    and "st \<noteq> Exited \<Longrightarrow> chan_len (controlCh (get_queue b' q)) = chan_len (controlCh (get_queue b q))"
    and "st = Exited \<Longrightarrow> chan_len (controlCh (get_queue b q)) \<le> Suc (chan_len (controlCh (get_queue b' q)))"
    and "chan_len (controlCh (get_queue b' q)) \<le> chan_len (controlCh (get_queue b q))"
proof -
  have "chan_cap (controlCh (get_queue b' q)) = chan_cap (controlCh (get_queue b q)) \<and>
        (st \<noteq> Exited \<longrightarrow> chan_len (controlCh (get_queue b' q)) = chan_len (controlCh (get_queue b q))) \<and>
        (st = Exited \<longrightarrow> chan_len (controlCh (get_queue b q)) \<le> Suc (chan_len (controlCh (get_queue b' q)))) \<and>
        chan_len (controlCh (get_queue b' q)) \<le> chan_len (controlCh (get_queue b q))"
  proof (cases wev)
    case IdleTimeout
    from assms(1) show ?thesis
    proof
      assume "turn = loadWorker_turn"
      then show ?thesis using assms(2) IdleTimeout
        by (auto simp: loadWorker_turn_def chan_recv_def split: if_splits option.splits)
    next
      assume "turn = reapWorker_turn"
      then show ?thesis using assms(2) IdleTimeout by (auto simp: reapWorker_turn_def)
    qed
  next
    case (WorkCh work x)
    from assms(1) show ?thesis
    proof
      assume "turn = loadWorker_turn"
      then show ?thesis using assms(2) WorkCh
        by (auto simp: loadWorker_turn_def Let_def split: if_splits)
    next
      assume "turn = reapWorker_turn"
      then show ?thesis using assms(2) WorkCh
        by (auto simp: reapWorker_turn_def Let_def split: if_splits)
    qed
  qed
  then show "chan_cap (controlCh (get_queue b' q)) = chan_cap (controlCh (get_queue b q))"
    and "st \<noteq> Exited \<Longrightarrow> chan_len (controlCh (get_queue b' q)) = chan_len (controlCh (get_queue b q))"
    and "st = Exited \<Longrightarrow> chan_len (controlCh (get_queue b q)) \<le> Suc (chan_len (controlCh (get_queue b' q)))"
    and "chan_len (controlCh (get_queue b' q)) \<le> chan_len (controlCh (get_queue b q))"
    by simp_all
qed

lemma start_worker_Some:
  assumes "start_worker s q m = Some s1"
  shows "pool_workers s1 = pool_workers s @ [m]"
    and "chan_len (controlCh (get_queue (pool_bot s1) q)) =
           Suc (chan_len (controlCh (get_queue (pool_bot s) q)))"
    and "chan_len (controlCh (get_queue (pool_bot s) q)) < chan_cap (controlCh (get_queue (pool_bot s) q))"
    and "chan_cap (controlCh (get_queue (pool_bot s1) q)) = chan_cap (controlCh (get_queue (pool_bot s) q))"
  using assms
  by (auto simp: start_worker_def chan_send_def split: option.splits if_splits)

lemma pool_step_inv:
  assumes turn: "turn = loadWorker_turn \<or> turn = reapWorker_turn"
    and w: "length (pool_workers s) \<le> chan_len (controlCh (get_queue (pool_bot s) q))"
    and l: "chan_len (controlCh (get_queue (pool_bot s) q)) \<le> chan_cap (controlCh (get_queue (pool_bot s) q))"
  shows "length (pool_workers (pool_step turn q s ev))
           \<le> chan_len (controlCh (get_queue (pool_bot (pool_step turn q s ev)) q)) \<and>
         chan_len (controlCh (get_queue (pool_bot (pool_step turn q s ev)) q))
           \<le> chan_cap (controlCh (get_queue (pool_bot (pool_step turn q s ev)) q)) \<and>
         chan_cap (controlCh (get_queue (pool_bot (pool_step turn q s ev)) q))
           = chan_cap (controlCh (get_queue (pool_bot s) q)) \<and>
         (length (pool_workers s) < length (pool_workers (pool_step turn q s ev)) \<longrightarrow>
            chan_len (controlCh (get_queue (pool_bot (pool_step turn q s ev)) q))
              = Suc (chan_len (controlCh (get_queue (pool_bot s) q))))"
proof -
  have start: ?thesis
    if ev: "pool_step turn q s ev = (case start_worker s q m of None \<Rightarrow> s | Some s1 \<Rightarrow> s1)" for m
  proof (cases "start_worker s q m")
    case None
    then show ?thesis using w l ev by simp
  next
    case (Some s1)
    from start_worker_Some [OF Some] w l ev Some show ?thesis by simp
  qed
  show ?thesis
  proof (cases ev)
    case SchedulerStarts
    then show ?thesis
      by (intro start [of False]) (simp add: pool_step_def reapScheduler_start_def)
  next
    case (SendWorkItemPass outcome)
    show ?thesis
    proof (cases outcome)
      case TimerC_Token
      then show ?thesis using SendWorkItemPass
        by (intro start [of True])
          (simp add: pool_step_def sendWorkItem_pass_def split: option.splits)
    qed (use SendWorkItemPass w l in \<open>simp_all add: pool_step_def sendWorkItem_pass_def\<close>)
  next
    case (WorkerTurn k wev)
    show ?thesis
    proof (cases "k < length (pool_workers s)")
      case False
      then show ?thesis using WorkerTurn w l by (simp add: pool_step_def)
    next
      case True
      obtain b1 st where t: "turn (pool_bot s) q (pool_workers s ! k) wev = (b1, st)"
        by (cases "turn (pool_bot s) q (pool_workers s ! k) wev")
      note tk = turn_tokens [OF turn t]
      show ?thesis
      proof (cases "st = Exited")
        case ex: True
        have s': "pool_step turn q s ev =
            s\<lparr>pool_bot := b1,
              pool_workers := take k (pool_workers s) @ drop (Suc k) (pool_workers s)\<rparr>"
          using WorkerTurn True t ex by (simp add: pool_step_def)
        have "length (take k (pool_workers s) @ drop (Suc k) (pool_workers s))
              = length (pool_workers s) - 1"
          using True by simp
        then show ?thesis
          unfolding s' using tk(1) tk(3) [OF ex] tk(4) w l True by simp arith
      next
        case nex: False
        have s': "pool_step turn q s ev = s\<lparr>pool_bot := b1\<rparr>"
          using WorkerTurn True t nex by (cases st) (simp_all add: pool_step_def)
        show ?thesis
          unfolding s' using tk(1) tk(2) [OF nex] w l by simp
      qed
    qed
  qed
qed

lemma pool_run_inv:
  assumes turn: "turn = loadWorker_turn \<or> turn = reapWorker_turn"
    and w: "length (pool_workers s) \<le> chan_len (controlCh (get_queue (pool_bot s) q))"
    and l: "chan_len (controlCh (get_queue (pool_bot s) q)) \<le> chan_cap (controlCh (get_queue (pool_bot s) q))"
  shows "length (pool_workers (pool_run turn q s evs))
           \<le> chan_len (controlCh (get_queue (pool_bot (pool_run turn q s evs)) q)) \<and>
         chan_len (controlCh (get_queue (pool_bot (pool_run turn q s evs)) q))
           \<le> chan_cap (controlCh (get_queue (pool_bot (pool_run turn q s evs)) q)) \<and>
         chan_cap (controlCh (get_queue (pool_bot (pool_run turn q s evs)) q))
           = chan_cap (controlCh (get_queue (pool_bot s) q))"
  using w l
proof (induction evs arbitrary: s)
  case Nil
  then show ?case by (simp add: pool_run_def)
next
  case (Cons ev evs)
  note st = pool_step_inv [OF turn Cons.prems, of ev]
  have "pool_run turn q s (ev # evs) = pool_run turn q (pool_step turn q s ev) evs"
    by (simp add: pool_run_def)
  then show ?case using Cons.IH [of "pool_step turn q s ev"] st by simp
qed

text \<open>
  A call of \<^verbatim>\<open>sendWorkItem\<close> changes the pool by at most one pass that starts a
  worker, so its runs are among those of the pool. Once its timer case has fired the
  caller does not get past the head of the loop again, in this call or the next.
\<close>

lemma sendWorkItem_starts_at_most_one:
  "fst (sendWorkItem s q tm outcomes) = s \<or>
   fst (sendWorkItem s q tm outcomes) = pool_step turn q s (SendWorkItemPass TimerC_Token)"
proof (cases "tm = TimerDrained \<or> outcomes = []")
  case True
  then show ?thesis by (cases tm; cases outcomes) simp_all
next
  case False
  then obtain oc ocs where o: "outcomes = oc # ocs" by (cases outcomes) auto
  show ?thesis
    using False o
    by (cases tm; cases oc; cases "start_worker s q True")
      (simp_all add: pool_step_def sendWorkItem_pass_def)
qed

lemma sendWorkItem_stuck_after_start:
  assumes "tm \<noteq> TimerDrained" and "start_worker s q True = Some s1"
  shows "sendWorkItem s q tm (TimerC_Token # outcomes) = (s1, StuckDraining)"
  using assms by (cases tm) simp_all

lemma sendWorkItem_stuck_after_timer_return:
  assumes "tm \<noteq> TimerDrained"
  shows "sendWorkItem s q tm (TimerC_WorkChSent # outcomes) = (s, Returned TimerDrained)"
    and "sendWorkItem s q TimerDrained outcomes' = (s, StuckDraining)"
  using assms by (cases tm; simp)+

text \<open>
  Claim C4. Take a queue made by \<^verbatim>\<open>newReapQueue(maxWorkerCount)\<close>, no worker started
  yet, and either worker function. After any run of worker starts (at the head of
  \<^verbatim>\<open>reapScheduler\<close> and in \<^verbatim>\<open>sendWorkItem\<close>) and of turns of the live workers, the
  number of live workers is at most the number of tokens in \<^verbatim>\<open>controlCh\<close>, which is
  at most its capacity \<open>maxWorkerCount\<close>; and a step that adds a worker adds a token.
\<close>

theorem worker_pool_bounded:
  assumes "get_queue b q = newReapQueue maxWorkerCount"
    and "turn = loadWorker_turn \<or> turn = reapWorker_turn"
  shows "let s = pool_run turn q \<lparr>pool_bot = b, pool_workers = []\<rparr> evs;
             tokens = controlCh (get_queue (pool_bot s) q)
         in length (pool_workers s) \<le> maxWorkerCount \<and>
            length (pool_workers s) \<le> chan_len tokens \<and>
            chan_len tokens \<le> chan_cap tokens \<and>
            chan_cap tokens = maxWorkerCount \<and>
            (\<forall>ev. length (pool_workers s) < length (pool_workers (pool_step turn q s ev)) \<longrightarrow>
               chan_len (controlCh (get_queue (pool_bot (pool_step turn q s ev)) q))
                 = Suc (chan_len tokens))"
proof -
  define s0 :: "'a pool" where "s0 = \<lparr>pool_bot = b, pool_workers = []\<rparr>"
  define s where "s = pool_run turn q s0 evs"
  have c0: "chan_cap (controlCh (get_queue (pool_bot s0) q)) = maxWorkerCount"
    and l0: "chan_len (controlCh (get_queue (pool_bot s0) q)) = 0"
    using assms(1) by (simp_all add: s0_def newReapQueue_def)
  have inv: "length (pool_workers s) \<le> chan_len (controlCh (get_queue (pool_bot s) q))"
    "chan_len (controlCh (get_queue (pool_bot s) q)) \<le> chan_cap (controlCh (get_queue (pool_bot s) q))"
    "chan_cap (controlCh (get_queue (pool_bot s) q)) = maxWorkerCount"
    unfolding s_def using pool_run_inv [OF assms(2), of s0 q evs] c0 l0
    by (simp_all add: s0_def)
  have next_step: "length (pool_workers s) < length (pool_workers (pool_step turn q s ev)) \<longrightarrow>
      chan_len (controlCh (get_queue (pool_bot (pool_step turn q s ev)) q))
        = Suc (chan_len (controlCh (get_queue (pool_bot s) q)))" for ev
    using pool_step_inv [OF assms(2) inv(1,2), of ev] by simp
  show ?thesis
    unfolding Let_def s0_def [symmetric] s_def [symmetric]
    using inv next_step by auto
qed

theorem worker_pool_bounded_witness:
  "pool_workers (pool_run loadWorker_turn LoadRetries
      \<lparr>pool_bot = fresh_bot 2 0 :: nat Bot, pool_workers = []\<rparr>
      [SchedulerStarts, SendWorkItemPass TimerC_Token, SendWorkItemPass TimerC_Token,
       WorkerTurn 1 IdleTimeout, SendWorkItemPass TimerC_Token,
       SendWorkItemPass TimerC_Token]) = [False, True] \<and>
   length (pool_workers (pool_run loadWorker_turn LoadRetries
      \<lparr>pool_bot = fresh_bot 2 0 :: nat Bot, pool_workers = []\<rparr>
      [SchedulerStarts, SendWorkItemPass TimerC_Token, SendWorkItemPass TimerC_Token,
       WorkerTurn 1 IdleTimeout, SendWorkItemPass TimerC_Token,
       SendWorkItemPass TimerC_Token])) \<le> 2 \<and>
   chan_len (controlCh (get_queue (pool_bot (pool_run loadWorker_turn LoadRetries
      \<lparr>pool_bot = fresh_bot 2 0 :: nat Bot, pool_workers = []\<rparr>
      [SchedulerStarts, SendWorkItemPass TimerC_Token, SendWorkItemPass TimerC_Token,
       WorkerTurn 1 IdleTimeout, SendWorkItemPass TimerC_Token,
       SendWorkItemPass TimerC_Token])) LoadRetries)) = 2"
proof -
  have h: "get_queue (fresh_bot 2 0 :: nat Bot) LoadRetries = newReapQueue 2"
    "loadWorker_turn = (loadWorker_turn :: nat Bot \<Rightarrow> _) \<or>
     loadWorker_turn = (reapWorker_turn :: nat Bot \<Rightarrow> _)"
    by (simp_all add: get_queue_def fresh_bot_def)
  have v: "pool_workers (pool_run loadWorker_turn LoadRetries
      \<lparr>pool_bot = fresh_bot 2 0 :: nat Bot, pool_workers = []\<rparr>
      [SchedulerStarts, SendWorkItemPass TimerC_Token, SendWorkItemPass TimerC_Token,
       WorkerTurn 1 IdleTimeout, SendWorkItemPass TimerC_Token,
       SendWorkItemPass TimerC_Token]) = [False, True]"
    "chan_len (controlCh (get_queue (pool_bot (pool_run loadWorker_turn LoadRetries
      \<lparr>pool_bot = fresh_bot 2 0 :: nat Bot, pool_workers = []\<rparr>
      [SchedulerStarts, SendWorkItemPass TimerC_Token, SendWorkItemPass TimerC_Token,
       WorkerTurn 1 IdleTimeout, SendWorkItemPass TimerC_Token,
       SendWorkItemPass TimerC_Token])) LoadRetries)) = 2"
    by code_simp+
  from worker_pool_bounded [OF h, of
      "[SchedulerStarts, SendWorkItemPass TimerC_Token, SendWorkItemPass TimerC_Token,
        WorkerTurn 1 IdleTimeout, SendWorkItemPass TimerC_Token,
        SendWorkItemPass TimerC_Token]"] v
  show ?thesis by (simp add: Let_def)
qed

end
